theory Spec2Isabelle
  imports Complex_Main "HOL-Library.AList"
begin

section \<open>Tokens and the lexer state\<close>

text \<open>
  The source is one Go file, \<^verbatim>\<open>main.go\<close>. Failures are Go panics: \<^verbatim>\<open>panic("...")\<close> with a
  message string, or a run-time error of the language (a slice expression out of range).
  An unrecovered panic ends the process; nothing in the file recovers one. A function that
  may panic returns \<open>panic + 'a\<close>, with \<open>Inl\<close> for the panic.
\<close>

datatype panic = Panic string | RuntimeError string

datatype TokenType =
    TokenString
  | TokenNumber
  | TokenBoolean
  | TokenNull
  | TokenLeftBrace
  | TokenRightBrace
  | TokenLeftBracket
  | TokenRightBracket
  | TokenColon
  | TokenComma
  | TokenEOF

record Token =
  Type :: TokenType
  Value :: string

text \<open>
  A Go string is a sequence of bytes and \<^verbatim>\<open>l.input[l.pos]\<close> is one byte, so \<open>input\<close> is a
  list of 8-bit characters. \<^verbatim>\<open>current\<close> is a rune, but it only ever holds \<^verbatim>\<open>rune(b)\<close> for a
  byte \<open>b\<close> of the input, or 0: it is a \<open>char\<close> here. \<^verbatim>\<open>pos\<close> starts at 0 and is only
  incremented: a \<open>nat\<close>.
\<close>

record Lexer =
  input :: string
  pos :: nat
  current :: char

subsection \<open>The library predicates on runes below 256\<close>

text \<open>
  \<^verbatim>\<open>unicode.IsSpace\<close>, \<^verbatim>\<open>unicode.IsDigit\<close> and \<^verbatim>\<open>unicode.IsLetter\<close> belong to Go's standard
  library. On the Latin-1 range, the only one a byte can reach, they are:
  white space is tab, line feed, vertical tab, form feed, carriage return, space, U+0085
  and U+00A0; the digits are \<^verbatim>\<open>0\<close> to \<^verbatim>\<open>9\<close>; the letters are \<^verbatim>\<open>A-Z\<close>, \<^verbatim>\<open>a-z\<close>, U+00AA, U+00B5,
  U+00BA, U+00C0 to U+00D6, U+00D8 to U+00F6 and U+00F8 to U+00FF.
\<close>

definition IsSpace :: "char \<Rightarrow> bool" where
  "IsSpace c = (let n = (of_char c :: nat) in
     n = 9 \<or> n = 10 \<or> n = 11 \<or> n = 12 \<or> n = 13 \<or> n = 32 \<or> n = 133 \<or> n = 160)"

definition IsDigit :: "char \<Rightarrow> bool" where
  "IsDigit c = (let n = (of_char c :: nat) in 48 \<le> n \<and> n \<le> 57)"

definition IsLetter :: "char \<Rightarrow> bool" where
  "IsLetter c = (let n = (of_char c :: nat) in
     (65 \<le> n \<and> n \<le> 90) \<or> (97 \<le> n \<and> n \<le> 122) \<or> n = 170 \<or> n = 181 \<or> n = 186 \<or>
     (192 \<le> n \<and> n \<le> 214) \<or> (216 \<le> n \<and> n \<le> 246) \<or> (248 \<le> n \<and> n \<le> 255))"

text \<open>
  \<^verbatim>\<open>strings.Builder.WriteRune\<close> appends the UTF-8 encoding of the rune: one byte below
  128, two bytes for the rest of the Latin-1 range.
\<close>

definition WriteRune :: "char \<Rightarrow> string" where
  "WriteRune c = (let n = (of_char c :: nat) in
     if n < 128 then [c] else [char_of (192 + n div 64), char_of (128 + n mod 64)])"

text \<open>
  The slice expression \<^verbatim>\<open>s[lo:hi]\<close> of Go panics unless \<open>0 \<le> lo \<le> hi \<le> len(s)\<close>.
\<close>

definition slice :: "string \<Rightarrow> int \<Rightarrow> int \<Rightarrow> panic + string" where
  "slice s lo hi =
     (if 0 \<le> lo \<and> lo \<le> hi \<and> hi \<le> int (length s)
      then Inr (take (nat (hi - lo)) (drop (nat lo) s))
      else Inl (RuntimeError ''slice bounds out of range''))"

subsection \<open>The lexer\<close>

definition advance :: "Lexer \<Rightarrow> Lexer" where
  "advance l =
     (if pos l < length (input l)
      then l\<lparr>current := input l ! pos l, pos := pos l + 1\<rparr>
      else l\<lparr>current := CHR 0x00\<rparr>)"

definition NewLexer :: "string \<Rightarrow> Lexer" where
  "NewLexer inp = advance \<lparr>input = inp, pos = 0, current = CHR 0x00\<rparr>"

text \<open>
  What is left to read, counting the character held in \<open>current\<close>. Every loop of the
  lexer runs while \<open>current\<close> is some character other than 0, and \<open>advance\<close> then makes
  this number smaller.
\<close>

definition remaining :: "Lexer \<Rightarrow> nat" where
  "remaining l = (length (input l) - pos l) + (if current l = CHR 0x00 then 0 else 1)"

lemma remaining_advance_le: "remaining (advance l) \<le> remaining l"
  by (auto simp: remaining_def advance_def)

lemma remaining_advance_less: "current l \<noteq> CHR 0x00 \<Longrightarrow> remaining (advance l) < remaining l"
  by (auto simp: remaining_def advance_def)

lemma IsSpace_not_0: "IsSpace c \<Longrightarrow> c \<noteq> CHR 0x00"
  by (auto simp: IsSpace_def)

lemma IsDigit_not_0: "IsDigit c \<Longrightarrow> c \<noteq> CHR 0x00"
  by (auto simp: IsDigit_def)

lemma IsLetter_not_0: "IsLetter c \<Longrightarrow> c \<noteq> CHR 0x00"
  by (auto simp: IsLetter_def)

function skipWhitespace :: "Lexer \<Rightarrow> Lexer" where
  "skipWhitespace l = (if IsSpace (current l) then skipWhitespace (advance l) else l)"
  by pat_completeness auto
termination
  by (relation "measure remaining") (auto simp: remaining_advance_less IsSpace_not_0)

declare skipWhitespace.simps [simp del]

text \<open>The loop of \<^verbatim>\<open>readString\<close>; \<open>sb\<close> is the builder's content.\<close>

function readString_loop :: "string \<Rightarrow> Lexer \<Rightarrow> string \<times> Lexer" where
  "readString_loop sb l =
     (if current l \<noteq> CHR 0x22 \<and> current l \<noteq> CHR 0x00
      then readString_loop (sb @ WriteRune (current l)) (advance l)
      else (sb, l))"
  by pat_completeness auto
termination
  by (relation "measure (\<lambda>(sb, l). remaining l)") (auto simp: remaining_advance_less)

declare readString_loop.simps [simp del]

definition readString :: "Lexer \<Rightarrow> Token \<times> Lexer" where
  "readString l =
     (let l1 = advance l;
          (sb, l2) = readString_loop [] l1;
          l3 = advance l2
      in (\<lparr>Type = TokenString, Value = sb\<rparr>, l3))"

function readNumber_loop :: "Lexer \<Rightarrow> Lexer" where
  "readNumber_loop l =
     (if IsDigit (current l) \<or> current l = CHR ''.'' \<or> current l = CHR ''-''
      then readNumber_loop (advance l)
      else l)"
  by pat_completeness auto
termination
  by (relation "measure remaining") (auto simp: remaining_advance_less IsDigit_not_0)

declare readNumber_loop.simps [simp del]

definition readNumber :: "Lexer \<Rightarrow> panic + Token \<times> Lexer" where
  "readNumber l =
     (let start = int (pos l) - 1;
          l1 = readNumber_loop l
      in case slice (input l1) start (int (pos l1) - 1) of
           Inl e \<Rightarrow> Inl e
         | Inr v \<Rightarrow> Inr (\<lparr>Type = TokenNumber, Value = v\<rparr>, l1))"

function readKeyword_loop :: "Lexer \<Rightarrow> Lexer" where
  "readKeyword_loop l =
     (if IsLetter (current l) then readKeyword_loop (advance l) else l)"
  by pat_completeness auto
termination
  by (relation "measure remaining") (auto simp: remaining_advance_less IsLetter_not_0)

declare readKeyword_loop.simps [simp del]

definition readKeyword :: "Lexer \<Rightarrow> panic + Token \<times> Lexer" where
  "readKeyword l =
     (let start = int (pos l) - 1;
          l1 = readKeyword_loop l
      in case slice (input l1) start (int (pos l1) - 1) of
           Inl e \<Rightarrow> Inl e
         | Inr v \<Rightarrow>
             if v = ''true'' \<or> v = ''false'' then Inr (\<lparr>Type = TokenBoolean, Value = v\<rparr>, l1)
             else if v = ''null'' then Inr (\<lparr>Type = TokenNull, Value = v\<rparr>, l1)
             else Inl (Panic (''Unexpected keyword: '' @ v)))"

definition Lexer_nextToken :: "Lexer \<Rightarrow> panic + Token \<times> Lexer" where
  "Lexer_nextToken l0 =
     (let l = skipWhitespace l0; c = current l in
      if c = CHR ''{'' then Inr (\<lparr>Type = TokenLeftBrace, Value = ''{''\<rparr>, advance l)
      else if c = CHR ''}'' then Inr (\<lparr>Type = TokenRightBrace, Value = ''}''\<rparr>, advance l)
      else if c = CHR ''['' then Inr (\<lparr>Type = TokenLeftBracket, Value = ''[''\<rparr>, advance l)
      else if c = CHR '']'' then Inr (\<lparr>Type = TokenRightBracket, Value = '']''\<rparr>, advance l)
      else if c = CHR '':'' then Inr (\<lparr>Type = TokenColon, Value = '':''\<rparr>, advance l)
      else if c = CHR '','' then Inr (\<lparr>Type = TokenComma, Value = '',''\<rparr>, advance l)
      else if c = CHR 0x22 then Inr (readString l)
      else if IsDigit c \<or> c = CHR ''-'' then readNumber l
      else if IsLetter c then readKeyword l
      else Inr (\<lparr>Type = TokenEOF, Value = ''''\<rparr>, l))"

subsection \<open>One turn of each loop\<close>

lemma skipWhitespace_step: "IsSpace (current l) \<Longrightarrow> skipWhitespace l = skipWhitespace (advance l)"
  by (subst skipWhitespace.simps) simp

lemma skipWhitespace_stop: "\<not> IsSpace (current l) \<Longrightarrow> skipWhitespace l = l"
  by (subst skipWhitespace.simps) simp

lemma readString_loop_step:
  "current l \<noteq> CHR 0x22 \<Longrightarrow> current l \<noteq> CHR 0x00 \<Longrightarrow>
   readString_loop sb l = readString_loop (sb @ WriteRune (current l)) (advance l)"
  by (subst readString_loop.simps) simp

lemma readString_loop_stop:
  "current l = CHR 0x22 \<or> current l = CHR 0x00 \<Longrightarrow> readString_loop sb l = (sb, l)"
  by (subst readString_loop.simps) auto

lemma readNumber_loop_step:
  "IsDigit (current l) \<or> current l = CHR ''.'' \<or> current l = CHR ''-'' \<Longrightarrow>
   readNumber_loop l = readNumber_loop (advance l)"
  by (subst readNumber_loop.simps) simp

lemma readNumber_loop_stop:
  "\<not> (IsDigit (current l) \<or> current l = CHR ''.'' \<or> current l = CHR ''-'') \<Longrightarrow>
   readNumber_loop l = l"
  by (subst readNumber_loop.simps) simp

lemma readKeyword_loop_step:
  "IsLetter (current l) \<Longrightarrow> readKeyword_loop l = readKeyword_loop (advance l)"
  by (subst readKeyword_loop.simps) simp

lemma readKeyword_loop_stop: "\<not> IsLetter (current l) \<Longrightarrow> readKeyword_loop l = l"
  by (subst readKeyword_loop.simps) simp

subsection \<open>The lexer consumes its input\<close>

text \<open>
  No loop of the lexer makes \<open>remaining\<close> larger, and a token other than the
  end-of-input token costs at least one character.
\<close>

lemma skipWhitespace_le: "remaining (skipWhitespace l) \<le> remaining l"
proof (induction l rule: skipWhitespace.induct)
  case (1 l)
  show ?case
  proof (cases "IsSpace (current l)")
    case True
    with 1 have "remaining (skipWhitespace (advance l)) \<le> remaining (advance l)" by simp
    also have "\<dots> \<le> remaining l" by (rule remaining_advance_le)
    finally show ?thesis using True by (simp add: skipWhitespace_step)
  next
    case False
    then show ?thesis by (simp add: skipWhitespace_stop)
  qed
qed

lemma readString_loop_le: "remaining (snd (readString_loop sb l)) \<le> remaining l"
proof (induction sb l rule: readString_loop.induct)
  case (1 sb l)
  show ?case
  proof (cases "current l \<noteq> CHR 0x22 \<and> current l \<noteq> CHR 0x00")
    case True
    with 1 have "remaining (snd (readString_loop (sb @ WriteRune (current l)) (advance l)))
        \<le> remaining (advance l)" by simp
    also have "\<dots> \<le> remaining l" by (rule remaining_advance_le)
    finally show ?thesis using True by (simp add: readString_loop_step)
  next
    case False
    then show ?thesis by (simp add: readString_loop_stop)
  qed
qed

lemma readNumber_loop_le: "remaining (readNumber_loop l) \<le> remaining l"
proof (induction l rule: readNumber_loop.induct)
  case (1 l)
  show ?case
  proof (cases "IsDigit (current l) \<or> current l = CHR ''.'' \<or> current l = CHR ''-''")
    case True
    with 1 have "remaining (readNumber_loop (advance l)) \<le> remaining (advance l)" by simp
    also have "\<dots> \<le> remaining l" by (rule remaining_advance_le)
    finally show ?thesis using True by (simp add: readNumber_loop_step)
  next
    case False
    then show ?thesis by (simp add: readNumber_loop_stop)
  qed
qed

lemma readKeyword_loop_le: "remaining (readKeyword_loop l) \<le> remaining l"
proof (induction l rule: readKeyword_loop.induct)
  case (1 l)
  show ?case
  proof (cases "IsLetter (current l)")
    case True
    with 1 have "remaining (readKeyword_loop (advance l)) \<le> remaining (advance l)" by simp
    also have "\<dots> \<le> remaining l" by (rule remaining_advance_le)
    finally show ?thesis using True by (simp add: readKeyword_loop_step)
  next
    case False
    then show ?thesis by (simp add: readKeyword_loop_stop)
  qed
qed

lemma readNumber_loop_less:
  assumes "IsDigit (current l) \<or> current l = CHR ''-''"
  shows "remaining (readNumber_loop l) < remaining l"
proof -
  from assms have n0: "current l \<noteq> CHR 0x00" by (auto simp: IsDigit_not_0)
  from assms have "readNumber_loop l = readNumber_loop (advance l)"
    by (intro readNumber_loop_step) auto
  then have "remaining (readNumber_loop l) \<le> remaining (advance l)"
    by (simp add: readNumber_loop_le)
  also have "\<dots> < remaining l" using n0 by (rule remaining_advance_less)
  finally show ?thesis .
qed

lemma readKeyword_loop_less:
  assumes "IsLetter (current l)"
  shows "remaining (readKeyword_loop l) < remaining l"
proof -
  from assms have n0: "current l \<noteq> CHR 0x00" by (auto simp: IsLetter_not_0)
  from assms have "readKeyword_loop l = readKeyword_loop (advance l)"
    by (rule readKeyword_loop_step)
  then have "remaining (readKeyword_loop l) \<le> remaining (advance l)"
    by (simp add: readKeyword_loop_le)
  also have "\<dots> < remaining l" using n0 by (rule remaining_advance_less)
  finally show ?thesis .
qed

lemma readString_less:
  assumes "current l = CHR 0x22"
  shows "remaining (snd (readString l)) < remaining l"
proof -
  obtain sb l2 where r: "readString_loop [] (advance l) = (sb, l2)"
    by (cases "readString_loop [] (advance l)")
  have "remaining (advance l2) \<le> remaining l2" by (rule remaining_advance_le)
  also have "\<dots> \<le> remaining (advance l)"
    using readString_loop_le [of "[]" "advance l"] r by simp
  also have "\<dots> < remaining l" using assms by (intro remaining_advance_less) simp
  finally show ?thesis using r by (simp add: readString_def)
qed

lemma Lexer_nextToken_remaining:
  assumes "Lexer_nextToken l = Inr (t, l')"
  shows "remaining l' + (if Type t = TokenEOF then 0 else 1) \<le> remaining l"
proof -
  let ?s = "skipWhitespace l"
  have s: "remaining ?s \<le> remaining l" by (rule skipWhitespace_le)
  have adv: "current ?s \<noteq> CHR 0x00 \<Longrightarrow> remaining (advance ?s) + 1 \<le> remaining l"
    using remaining_advance_less [of ?s] s by simp
  have str: "current ?s = CHR 0x22 \<Longrightarrow> remaining (snd (readString ?s)) + 1 \<le> remaining l"
    using readString_less [of ?s] s by simp
  have num: "IsDigit (current ?s) \<or> current ?s = CHR ''-'' \<Longrightarrow>
      remaining (readNumber_loop ?s) + 1 \<le> remaining l"
    using readNumber_loop_less [of ?s] s by simp
  have kw: "IsLetter (current ?s) \<Longrightarrow> remaining (readKeyword_loop ?s) + 1 \<le> remaining l"
    using readKeyword_loop_less [of ?s] s by simp
  show ?thesis
    using assms adv str num kw s
    by (auto simp: Lexer_nextToken_def Let_def readNumber_def readKeyword_def
        split: if_splits sum.splits)
qed

section \<open>Values and the parser\<close>

subsection \<open>The library's number conversion\<close>

text \<open>
  \<^verbatim>\<open>strconv.ParseFloat(s, 64)\<close> belongs to Go's standard library. A number token holds only
  digits, \<^verbatim>\<open>.\<close> and \<^verbatim>\<open>-\<close> (see \<open>readNumber_loop\<close>), and on such a string the library
  accepts an optional \<^verbatim>\<open>-\<close>, then digits with at most one \<^verbatim>\<open>.\<close> among them and at least one
  digit, up to the end of the string. What it accepts it converts to the nearest float64,
  ties to even, and to an infinity with a range error when the magnitude is too large.
  Anything else gives 0 with a syntax error. The result is the pair of the value and of
  whether the error is set.

  A float64 is its sign and its magnitude (an exact rational), or an infinity with its
  sign.
\<close>

datatype float64 = Float64 bool rat | Inf64 bool

function bitlen :: "int \<Rightarrow> int" where
  "bitlen n = (if n \<le> 0 then 0 else 1 + bitlen (n div 2))"
  by pat_completeness auto
termination
  by (relation "measure nat") auto

declare bitlen.simps [simp del]

text \<open>
  The float64 nearest to \<open>a / b\<close>, for \<open>0 \<le> a\<close> and \<open>0 < b\<close>: \<open>e\<close> is the binary
  exponent of the quotient, \<open>p\<close> the exponent of the last place of the 53-bit significand
  (not below that of the subnormal numbers), \<open>m\<close> the quotient in units of \<open>2 ^ p\<close>, rounded
  to the nearest integer, to the even one at a tie.
\<close>

definition nearest_float64 :: "bool \<Rightarrow> int \<Rightarrow> int \<Rightarrow> float64 \<times> bool" where
  "nearest_float64 neg a b =
     (if a = 0 then (Float64 neg 0, False)
      else
        let x = bitlen a - bitlen b;
            e = (if (if 0 \<le> x then b * 2 ^ nat x \<le> a else b \<le> a * 2 ^ nat (- x))
                 then x else x - 1);
            p = max (e - 52) (- 1074);
            num = (if 0 \<le> p then a else a * 2 ^ nat (- p));
            den = (if 0 \<le> p then b * 2 ^ nat p else b);
            d = num div den;
            r = num mod den;
            m = (if 2 * r < den then d else if den < 2 * r then d + 1
                 else if even d then d else d + 1)
        in if 972 \<le> p \<or> (p = 971 \<and> m = 2 ^ 53) then (Inf64 neg, True)
           else (Float64 neg (if 0 \<le> p then of_int (m * 2 ^ nat p)
                              else of_int m / of_int (2 ^ nat (- p))), False))"

definition digits_value :: "string \<Rightarrow> int" where
  "digits_value ds = foldl (\<lambda>n c. 10 * n + (of_char c - 48)) 0 ds"

definition ParseFloat :: "string \<Rightarrow> float64 \<times> bool" where
  "ParseFloat s =
     (let neg = (s \<noteq> [] \<and> hd s = CHR ''-'');
          body = (if neg then tl s else s);
          ip = takeWhile IsDigit body;
          r = dropWhile IsDigit body;
          fp = (if r = [] then [] else takeWhile IsDigit (tl r));
          ok = ((r = [] \<or> (hd r = CHR ''.'' \<and> dropWhile IsDigit (tl r) = [])) \<and>
                ip @ fp \<noteq> [])
      in if ok then nearest_float64 neg (digits_value (ip @ fp)) (10 ^ length fp)
         else (Float64 False 0, True))"

subsection \<open>Values\<close>

text \<open>
  The parser returns \<^verbatim>\<open>interface{}\<close> values, of one of six dynamic types: \<^verbatim>\<open>string\<close>,
  \<^verbatim>\<open>float64\<close>, \<^verbatim>\<open>bool\<close>, \<^verbatim>\<open>nil\<close>, \<^verbatim>\<open>map[string]interface{}\<close> and \<^verbatim>\<open>[]interface{}\<close>. The map is
  an association list with one entry for each key, in the order in which the keys were
  first stored; \<^verbatim>\<open>obj[key] = value\<close> is \<open>AList.update\<close>, which replaces the value of a key
  that is present and adds the entry otherwise. Go's maps have no order: what a map holds
  is read with \<open>map_of\<close>.
\<close>

datatype "value" =
    VString string
  | VNumber float64
  | VBoolean bool
  | VNull
  | VObject "(string \<times> value) list"
  | VArray "value list"

subsection \<open>The parser\<close>

text \<open>
  The parser holds a pointer to its lexer; nothing else refers to that lexer, so the
  parser's state contains the lexer's.
\<close>

record Parser =
  lexer :: Lexer
  token :: Token

definition Parser_nextToken :: "Parser \<Rightarrow> panic + Parser" where
  "Parser_nextToken p =
     (case Lexer_nextToken (lexer p) of
        Inl e \<Rightarrow> Inl e
      | Inr (t, l) \<Rightarrow> Inr (p\<lparr>lexer := l, token := t\<rparr>))"

text \<open>The token of a new parser is Go's zero value until the first token is read.\<close>

definition NewParser :: "Lexer \<Rightarrow> panic + Parser" where
  "NewParser lx =
     Parser_nextToken \<lparr>lexer = lx, token = \<lparr>Type = TokenString, Value = ''''\<rparr>\<rparr>"

text \<open>
  The three mutually recursive methods. Each of the two \<^verbatim>\<open>for\<close> loops is a function of
  its own, whose first argument is the map or the slice built so far.
\<close>

function parseObject :: "Parser \<Rightarrow> panic + value \<times> Parser"
  and parseObject_loop :: "(string \<times> value) list \<Rightarrow> Parser \<Rightarrow> panic + value \<times> Parser"
  and parseArray :: "Parser \<Rightarrow> panic + value \<times> Parser"
  and parseArray_loop :: "value list \<Rightarrow> Parser \<Rightarrow> panic + value \<times> Parser"
  and parseValue :: "Parser \<Rightarrow> panic + value \<times> Parser"
where
  "parseObject p =
     (case Parser_nextToken p of
        Inl e \<Rightarrow> Inl e
      | Inr p1 \<Rightarrow> parseObject_loop [] p1)"
| "parseObject_loop obj p =
     (if Type (token p) \<noteq> TokenRightBrace then
        if Type (token p) \<noteq> TokenString then Inl (Panic ''Expected string key in object'')
        else
          let key = Value (token p) in
          case Parser_nextToken p of
            Inl e \<Rightarrow> Inl e
          | Inr p1 \<Rightarrow>
              if Type (token p1) \<noteq> TokenColon then Inl (Panic ''Expected ':' after key'')
              else
                case Parser_nextToken p1 of
                  Inl e \<Rightarrow> Inl e
                | Inr p2 \<Rightarrow>
                    (case parseValue p2 of
                       Inl e \<Rightarrow> Inl e
                     | Inr (v, p3) \<Rightarrow>
                         let obj' = AList.update key v obj in
                         if Type (token p3) = TokenComma then
                           (case Parser_nextToken p3 of
                              Inl e \<Rightarrow> Inl e
                            | Inr p4 \<Rightarrow> parseObject_loop obj' p4)
                         else if Type (token p3) \<noteq> TokenRightBrace
                         then Inl (Panic ''Expected ',' or '}' in object'')
                         else parseObject_loop obj' p3)
      else
        case Parser_nextToken p of
          Inl e \<Rightarrow> Inl e
        | Inr p1 \<Rightarrow> Inr (VObject obj, p1))"
| "parseArray p =
     (case Parser_nextToken p of
        Inl e \<Rightarrow> Inl e
      | Inr p1 \<Rightarrow> parseArray_loop [] p1)"
| "parseArray_loop arr p =
     (if Type (token p) \<noteq> TokenRightBracket then
        case parseValue p of
          Inl e \<Rightarrow> Inl e
        | Inr (v, p1) \<Rightarrow>
            let arr' = arr @ [v] in
            if Type (token p1) = TokenComma then
              (case Parser_nextToken p1 of
                 Inl e \<Rightarrow> Inl e
               | Inr p2 \<Rightarrow> parseArray_loop arr' p2)
            else if Type (token p1) \<noteq> TokenRightBracket
            then Inl (Panic ''Expected ',' or ']' in array'')
            else parseArray_loop arr' p1
      else
        case Parser_nextToken p of
          Inl e \<Rightarrow> Inl e
        | Inr p1 \<Rightarrow> Inr (VArray arr, p1))"
| "parseValue p =
     (case Type (token p) of
        TokenString \<Rightarrow>
          (let val = Value (token p) in
           case Parser_nextToken p of Inl e \<Rightarrow> Inl e | Inr p1 \<Rightarrow> Inr (VString val, p1))
      | TokenNumber \<Rightarrow>
          (let val = fst (ParseFloat (Value (token p))) in
           case Parser_nextToken p of Inl e \<Rightarrow> Inl e | Inr p1 \<Rightarrow> Inr (VNumber val, p1))
      | TokenBoolean \<Rightarrow>
          (let val = (Value (token p) = ''true'') in
           case Parser_nextToken p of Inl e \<Rightarrow> Inl e | Inr p1 \<Rightarrow> Inr (VBoolean val, p1))
      | TokenNull \<Rightarrow>
          (case Parser_nextToken p of Inl e \<Rightarrow> Inl e | Inr p1 \<Rightarrow> Inr (VNull, p1))
      | TokenLeftBrace \<Rightarrow> parseObject p
      | TokenLeftBracket \<Rightarrow> parseArray p
      | _ \<Rightarrow> Inl (Panic (''Unexpected token: '' @ Value (token p))))"
  by pat_completeness auto

subsection \<open>The parser terminates\<close>

text \<open>
  The parser's share of the input: what the lexer has left, and one more for a lookahead
  token other than the end-of-input token. Every method that returns has consumed a
  token, and this makes the recursion well-founded.
\<close>

definition lookahead :: "Parser \<Rightarrow> nat" where
  "lookahead p = remaining (lexer p) + (if Type (token p) = TokenEOF then 0 else 1)"

lemma Parser_nextToken_lookahead:
  "Parser_nextToken p = Inr p' \<Longrightarrow> lookahead p' \<le> remaining (lexer p)"
  by (auto simp: Parser_nextToken_def lookahead_def split: sum.splits
      dest: Lexer_nextToken_remaining)

lemma Parser_nextToken_le:
  "Parser_nextToken p = Inr p' \<Longrightarrow> lookahead p' \<le> lookahead p"
  by (drule Parser_nextToken_lookahead) (simp add: lookahead_def)

lemma Parser_nextToken_less:
  "Parser_nextToken p = Inr p' \<Longrightarrow> Type (token p) \<noteq> TokenEOF \<Longrightarrow> lookahead p' < lookahead p"
  by (drule Parser_nextToken_lookahead) (simp add: lookahead_def)

lemma parse_consumes_dom:
  "parseObject_parseObject_loop_parseArray_parseArray_loop_parseValue_dom (Inl (Inl p1)) \<Longrightarrow>
     parseObject p1 = Inr (v1, q1) \<Longrightarrow> lookahead q1 < lookahead p1"
  "parseObject_parseObject_loop_parseArray_parseArray_loop_parseValue_dom (Inl (Inr (obj, p2))) \<Longrightarrow>
     parseObject_loop obj p2 = Inr (v2, q2) \<Longrightarrow> lookahead q2 < lookahead p2"
  "parseObject_parseObject_loop_parseArray_parseArray_loop_parseValue_dom (Inr (Inl p3)) \<Longrightarrow>
     parseArray p3 = Inr (v3, q3) \<Longrightarrow> lookahead q3 < lookahead p3"
  "parseObject_parseObject_loop_parseArray_parseArray_loop_parseValue_dom (Inr (Inr (Inl (arr, p4)))) \<Longrightarrow>
     parseArray_loop arr p4 = Inr (v4, q4) \<Longrightarrow> lookahead q4 < lookahead p4"
  "parseObject_parseObject_loop_parseArray_parseArray_loop_parseValue_dom (Inr (Inr (Inr p5))) \<Longrightarrow>
     parseValue p5 = Inr (v5, q5) \<Longrightarrow> lookahead q5 < lookahead p5"
proof (induction p1 and obj p2 and p3 and arr p4 and p5 arbitrary: v1 q1 and v2 q2 and v3 q3 and v4 q4 and v5 q5
    rule: parseObject_parseObject_loop_parseArray_parseArray_loop_parseValue.pinduct)
  case (1 p)
  from "1.prems" obtain b where b: "Parser_nextToken p = Inr b" "parseObject_loop [] b = Inr (v1, q1)"
    by (auto simp: parseObject.psimps [OF "1.hyps"] split: sum.splits)
  from "1.IH" [OF b] have "lookahead q1 < lookahead b" .
  with Parser_nextToken_le [OF b(1)] show ?case by simp
next
  case (2 obj p)
  note psimp = parseObject_loop.psimps [OF "2.hyps"]
  show ?case
  proof (cases "Type (token p) = TokenRightBrace")
    case True
    with "2.prems" have "Parser_nextToken p = Inr q2"
      by (auto simp: psimp split: sum.splits)
    then show ?thesis using True by (intro Parser_nextToken_less) auto
  next
    case False
    with "2.prems" obtain b ba x y where
      s: "Type (token p) = TokenString" and b: "Parser_nextToken p = Inr b"
      and c: "Type (token b) = TokenColon" and ba: "Parser_nextToken b = Inr ba"
      and pv: "parseValue ba = Inr (x, y)"
      by (auto simp: psimp Let_def split: sum.splits if_splits)
    have nT: "\<not> Type (token p) \<noteq> TokenString" "\<not> Type (token b) \<noteq> TokenColon"
      using s c by simp_all
    from "2.IH"(1) [OF False nT(1) refl b nT(2) ba pv]
    have y: "lookahead y < lookahead ba" .
    have ba_le: "lookahead ba \<le> lookahead p"
      using Parser_nextToken_le [OF b] Parser_nextToken_le [OF ba] by simp
    show ?thesis
    proof (cases "Type (token y) = TokenComma")
      case True
      with "2.prems" False s b c ba pv obtain bc where
        bc: "Parser_nextToken y = Inr bc"
        and r: "parseObject_loop (AList.update (Value (token p)) x obj) bc = Inr (v2, q2)"
        by (auto simp: psimp Let_def split: sum.splits)
      from "2.IH"(2) [OF False nT(1) refl b nT(2) ba pv refl refl True bc r]
      have "lookahead q2 < lookahead bc" .
      with Parser_nextToken_le [OF bc] y ba_le show ?thesis by simp
    next
      case nc: False
      with "2.prems" False s b c ba pv have
        rb: "\<not> Type (token y) \<noteq> TokenRightBrace"
        and r: "parseObject_loop (AList.update (Value (token p)) x obj) y = Inr (v2, q2)"
        by (auto simp: psimp Let_def split: sum.splits if_splits)
      from "2.IH"(3) [OF False nT(1) refl b nT(2) ba pv refl refl nc rb r]
      have "lookahead q2 < lookahead y" .
      with y ba_le show ?thesis by simp
    qed
  qed
next
  case (3 p)
  from "3.prems" obtain b where b: "Parser_nextToken p = Inr b" "parseArray_loop [] b = Inr (v3, q3)"
    by (auto simp: parseArray.psimps [OF "3.hyps"] split: sum.splits)
  from "3.IH" [OF b] have "lookahead q3 < lookahead b" .
  with Parser_nextToken_le [OF b(1)] show ?case by simp
next
  case (4 arr p)
  note psimp = parseArray_loop.psimps [OF "4.hyps"]
  show ?case
  proof (cases "Type (token p) = TokenRightBracket")
    case True
    with "4.prems" have "Parser_nextToken p = Inr q4"
      by (auto simp: psimp split: sum.splits)
    then show ?thesis using True by (intro Parser_nextToken_less) auto
  next
    case False
    with "4.prems" obtain x y where pv: "parseValue p = Inr (x, y)"
      by (auto simp: psimp Let_def split: sum.splits if_splits)
    from "4.IH"(1) [OF False pv] have y: "lookahead y < lookahead p" .
    show ?thesis
    proof (cases "Type (token y) = TokenComma")
      case True
      with "4.prems" False pv obtain bc where
        bc: "Parser_nextToken y = Inr bc"
        and r: "parseArray_loop (arr @ [x]) bc = Inr (v4, q4)"
        by (auto simp: psimp Let_def split: sum.splits)
      from "4.IH"(2) [OF False pv refl refl True bc r]
      have "lookahead q4 < lookahead bc" .
      with Parser_nextToken_le [OF bc] y show ?thesis by simp
    next
      case nc: False
      with "4.prems" False pv have
        rb: "\<not> Type (token y) \<noteq> TokenRightBracket"
        and r: "parseArray_loop (arr @ [x]) y = Inr (v4, q4)"
        by (auto simp: psimp Let_def split: sum.splits if_splits)
      from "4.IH"(3) [OF False pv refl refl nc rb r]
      have "lookahead q4 < lookahead y" .
      with y show ?thesis by simp
    qed
  qed
next
  case (5 p)
  note psimp = parseValue.psimps [OF "5.hyps"]
  show ?case
  proof (cases "Type (token p)")
    case TokenLeftBrace
    with "5.prems" have "parseObject p = Inr (v5, q5)" by (simp add: psimp)
    from "5.IH"(1) [OF TokenLeftBrace this] show ?thesis .
  next
    case TokenLeftBracket
    with "5.prems" have "parseArray p = Inr (v5, q5)" by (simp add: psimp)
    from "5.IH"(2) [OF TokenLeftBracket this] show ?thesis .
  qed (use "5.prems" in \<open>auto simp: psimp Let_def split: sum.splits intro!: Parser_nextToken_less\<close>)
qed

lemma parse_all_dom:
  "All parseObject_parseObject_loop_parseArray_parseArray_loop_parseValue_dom"
proof (relation "measure (\<lambda>x. case x of
      Inl (Inl p) \<Rightarrow> 3 * (remaining (lexer p) + 1)
    | Inl (Inr (obj, p)) \<Rightarrow> 3 * lookahead p + 2
    | Inr (Inl p) \<Rightarrow> 3 * (remaining (lexer p) + 1)
    | Inr (Inr (Inl (arr, p))) \<Rightarrow> 3 * lookahead p + 2
    | Inr (Inr (Inr p)) \<Rightarrow> 3 * lookahead p + 1)", goal_cases)
  case 1
  show ?case by simp
next
  case (2 p b)
  then show ?case using Parser_nextToken_lookahead [of p b] by simp
next
  case (3 obj p x b ba)
  then show ?case
    using Parser_nextToken_lookahead [of p b] Parser_nextToken_le [of b ba]
    by (simp add: lookahead_def)
next
  case (4 obj p x b ba bb xa y xb bc)
  then have "lookahead y < lookahead ba" using parse_consumes_dom(5) [of ba xa y] by simp
  with 4 show ?case
    using Parser_nextToken_le [of p b] Parser_nextToken_le [of b ba] Parser_nextToken_le [of y bc]
    by simp
next
  case (5 obj p x b ba bb xa y xb)
  then have "lookahead y < lookahead ba" using parse_consumes_dom(5) [of ba xa y] by simp
  with 5 show ?case
    using Parser_nextToken_le [of p b] Parser_nextToken_le [of b ba]
    by simp
next
  case (6 p b)
  then show ?case using Parser_nextToken_lookahead [of p b] by simp
next
  case (7 arr p)
  then show ?case by simp
next
  case (8 arr p b x y xa ba)
  then have "lookahead y < lookahead p" using parse_consumes_dom(5) [of p x y] by simp
  with 8 show ?case using Parser_nextToken_le [of y ba] by simp
next
  case (9 arr p b x y xa)
  then have "lookahead y < lookahead p" using parse_consumes_dom(5) [of p x y] by simp
  then show ?case by simp
next
  case (10 p)
  then show ?case by (simp add: lookahead_def)
next
  case (11 p)
  then show ?case by (simp add: lookahead_def)
qed

termination parseObject
  by (rule parse_all_dom)

lemma parse_dom: "parseObject_parseObject_loop_parseArray_parseArray_loop_parseValue_dom x"
  using parse_all_dom by simp

lemmas parse_consumes = parse_consumes_dom [OF parse_dom]

declare parseObject.simps [simp del] parseObject_loop.simps [simp del]
  parseArray.simps [simp del] parseArray_loop.simps [simp del] parseValue.simps [simp del]

subsection \<open>The entry point\<close>

definition parseJSON :: "Parser \<Rightarrow> panic + value \<times> Parser" where
  "parseJSON p =
     (case Type (token p) of
        TokenLeftBrace \<Rightarrow> parseObject p
      | TokenLeftBracket \<Rightarrow> parseArray p
      | _ \<Rightarrow> Inl (Panic ''Invalid JSON start''))"

text \<open>
  The three steps of \<^verbatim>\<open>main\<close>, with the input text as a parameter: a lexer on the text, a
  parser on the lexer, and \<^verbatim>\<open>parseJSON\<close>. The result is the value that \<^verbatim>\<open>main\<close> prints, or
  the panic that ends the process.
\<close>

definition main_parse :: "string \<Rightarrow> panic + value" where
  "main_parse jsonInput =
     (case NewParser (NewLexer jsonInput) of
        Inl e \<Rightarrow> Inl e
      | Inr parser \<Rightarrow>
          (case parseJSON parser of
             Inl e \<Rightarrow> Inl e
           | Inr (parsedData, _) \<Rightarrow> Inr parsedData))"

section \<open>The lexer by byte offset\<close>

text \<open>
  \<open>lexer_at inp i\<close> is the state of a lexer on \<open>inp\<close> whose cursor is at byte offset
  \<open>i\<close>: \<open>current\<close> holds byte \<open>i\<close> and \<open>pos\<close> is one further, or, from the end of the
  input on, \<open>current\<close> is 0 and \<open>pos\<close> is the length. A new lexer is at offset 0 and
  \<open>advance\<close> moves to the next offset, so these are the states a lexer goes through.
\<close>

definition lexer_at :: "string \<Rightarrow> nat \<Rightarrow> Lexer" where
  "lexer_at inp i =
     \<lparr>input = inp, pos = min (Suc i) (length inp),
      current = (if i < length inp then inp ! i else CHR 0x00)\<rparr>"

lemma NewLexer_at: "NewLexer inp = lexer_at inp 0"
  by (cases inp) (simp_all add: NewLexer_def advance_def lexer_at_def)

lemma advance_at: "advance (lexer_at inp i) = lexer_at inp (Suc i)"
  by (auto simp: advance_def lexer_at_def min_def)

lemma current_at: "current (lexer_at inp i) = (if i < length inp then inp ! i else CHR 0x00)"
  by (simp add: lexer_at_def)

lemma current_at_drop:
  "current (lexer_at inp i) = (case drop i inp of [] \<Rightarrow> CHR 0x00 | c # _ \<Rightarrow> c)"
  by (cases "i < length inp") (simp_all add: current_at flip: Cons_nth_drop_Suc)

lemma input_at: "input (lexer_at inp i) = inp"
  by (simp add: lexer_at_def)

lemma pos_at: "pos (lexer_at inp i) = min (Suc i) (length inp)"
  by (simp add: lexer_at_def)

lemma lexer_at_end: "length inp \<le> i \<Longrightarrow> lexer_at inp i = lexer_at inp (length inp)"
  by (simp add: lexer_at_def)

definition IsNumberChar :: "char \<Rightarrow> bool" where
  "IsNumberChar c = (IsDigit c \<or> c = CHR ''.'' \<or> c = CHR ''-'')"

definition IsStringChar :: "char \<Rightarrow> bool" where
  "IsStringChar c = (c \<noteq> CHR 0x22 \<and> c \<noteq> CHR 0x00)"

lemma skipWhitespace_at:
  "skipWhitespace (lexer_at inp i) = lexer_at inp (i + length (takeWhile IsSpace (drop i inp)))"
proof (induction "length inp - i" arbitrary: i)
  case 0
  then show ?case by (simp add: skipWhitespace_stop current_at IsSpace_def)
next
  case (Suc n)
  then have i: "i < length inp" by simp
  then have d: "drop i inp = inp ! i # drop (Suc i) inp" by (simp add: Cons_nth_drop_Suc)
  show ?case
  proof (cases "IsSpace (inp ! i)")
    case True
    have "skipWhitespace (lexer_at inp i) = skipWhitespace (lexer_at inp (Suc i))"
      using True i by (simp add: skipWhitespace_step current_at advance_at)
    also have "\<dots> = lexer_at inp (Suc i + length (takeWhile IsSpace (drop (Suc i) inp)))"
      using Suc.hyps(2) by (intro Suc.hyps(1)) simp
    finally show ?thesis using True d by simp
  next
    case False
    then show ?thesis using i d by (simp add: skipWhitespace_stop current_at)
  qed
qed

lemma readNumber_loop_at:
  "readNumber_loop (lexer_at inp i) =
   lexer_at inp (i + length (takeWhile IsNumberChar (drop i inp)))"
proof (induction "length inp - i" arbitrary: i)
  case 0
  then show ?case by (simp add: readNumber_loop_stop current_at IsDigit_def)
next
  case (Suc n)
  then have i: "i < length inp" by simp
  then have d: "drop i inp = inp ! i # drop (Suc i) inp" by (simp add: Cons_nth_drop_Suc)
  show ?case
  proof (cases "IsNumberChar (inp ! i)")
    case True
    have "readNumber_loop (lexer_at inp i) = readNumber_loop (lexer_at inp (Suc i))"
      using True i by (simp add: readNumber_loop_step current_at advance_at IsNumberChar_def)
    also have "\<dots> = lexer_at inp (Suc i + length (takeWhile IsNumberChar (drop (Suc i) inp)))"
      using Suc.hyps(2) by (intro Suc.hyps(1)) simp
    finally show ?thesis using True d by simp
  next
    case False
    then show ?thesis using i d by (simp add: readNumber_loop_stop current_at IsNumberChar_def)
  qed
qed

lemma readKeyword_loop_at:
  "readKeyword_loop (lexer_at inp i) =
   lexer_at inp (i + length (takeWhile IsLetter (drop i inp)))"
proof (induction "length inp - i" arbitrary: i)
  case 0
  then show ?case by (simp add: readKeyword_loop_stop current_at IsLetter_def)
next
  case (Suc n)
  then have i: "i < length inp" by simp
  then have d: "drop i inp = inp ! i # drop (Suc i) inp" by (simp add: Cons_nth_drop_Suc)
  show ?case
  proof (cases "IsLetter (inp ! i)")
    case True
    have "readKeyword_loop (lexer_at inp i) = readKeyword_loop (lexer_at inp (Suc i))"
      using True i by (simp add: readKeyword_loop_step current_at advance_at)
    also have "\<dots> = lexer_at inp (Suc i + length (takeWhile IsLetter (drop (Suc i) inp)))"
      using Suc.hyps(2) by (intro Suc.hyps(1)) simp
    finally show ?thesis using True d by simp
  next
    case False
    then show ?thesis using i d by (simp add: readKeyword_loop_stop current_at)
  qed
qed

lemma readString_loop_at:
  "readString_loop sb (lexer_at inp i) =
   (sb @ concat (map WriteRune (takeWhile IsStringChar (drop i inp))),
    lexer_at inp (i + length (takeWhile IsStringChar (drop i inp))))"
proof (induction "length inp - i" arbitrary: i sb)
  case 0
  then show ?case by (simp add: readString_loop_stop current_at)
next
  case (Suc n)
  then have i: "i < length inp" by simp
  then have d: "drop i inp = inp ! i # drop (Suc i) inp" by (simp add: Cons_nth_drop_Suc)
  show ?case
  proof (cases "IsStringChar (inp ! i)")
    case True
    have "readString_loop sb (lexer_at inp i) =
        readString_loop (sb @ WriteRune (inp ! i)) (lexer_at inp (Suc i))"
      using True i by (simp add: readString_loop_step current_at advance_at IsStringChar_def)
    also have "\<dots> =
        ((sb @ WriteRune (inp ! i)) @ concat (map WriteRune (takeWhile IsStringChar (drop (Suc i) inp))),
         lexer_at inp (Suc i + length (takeWhile IsStringChar (drop (Suc i) inp))))"
      using Suc.hyps(2) by (intro Suc.hyps(1)) simp
    finally show ?thesis using True d by simp
  next
    case False
    then have "readString_loop sb (lexer_at inp i) = (sb, lexer_at inp i)"
      using i by (intro readString_loop_stop) (auto simp: current_at IsStringChar_def)
    then show ?thesis using False d by simp
  qed
qed

subsection \<open>One token, as a function of the text at the cursor\<close>

text \<open>
  \<open>scan_text s\<close> describes what \<^verbatim>\<open>nextToken\<close> does when the text from the cursor on is
  \<open>s\<close>: the token (or the panic) and the number of bytes the cursor moves. \<open>scan_first\<close>
  is the part after the white space. A run of
  number characters or of letters that reaches the end of the input loses its last
  character, since \<open>pos\<close> stays at the length there while the slice still ends at
  \<open>pos - 1\<close>. \<open>Lexer_nextToken_at\<close> proves that the lexer does this at every offset.
\<close>

definition scan_first :: "string \<Rightarrow> panic + Token \<times> nat" where
  "scan_first s =
     (case s of
        [] \<Rightarrow> Inr (\<lparr>Type = TokenEOF, Value = ''''\<rparr>, 0)
      | c # cs \<Rightarrow>
          if c = CHR ''{'' then Inr (\<lparr>Type = TokenLeftBrace, Value = ''{''\<rparr>, 1)
          else if c = CHR ''}'' then Inr (\<lparr>Type = TokenRightBrace, Value = ''}''\<rparr>, 1)
          else if c = CHR ''['' then Inr (\<lparr>Type = TokenLeftBracket, Value = ''[''\<rparr>, 1)
          else if c = CHR '']'' then Inr (\<lparr>Type = TokenRightBracket, Value = '']''\<rparr>, 1)
          else if c = CHR '':'' then Inr (\<lparr>Type = TokenColon, Value = '':''\<rparr>, 1)
          else if c = CHR '','' then Inr (\<lparr>Type = TokenComma, Value = '',''\<rparr>, 1)
          else if c = CHR 0x22 then
            (let body = takeWhile IsStringChar cs
             in Inr (\<lparr>Type = TokenString, Value = concat (map WriteRune body)\<rparr>,
                     length body + 2))
          else if IsDigit c \<or> c = CHR ''-'' then
            (let run = takeWhile IsNumberChar s
             in Inr (\<lparr>Type = TokenNumber,
                      Value = (if length run < length s then run else butlast run)\<rparr>,
                     length run))
          else if IsLetter c then
            (let run = takeWhile IsLetter s;
                 v = (if length run < length s then run else butlast run)
             in if v = ''true'' \<or> v = ''false''
                then Inr (\<lparr>Type = TokenBoolean, Value = v\<rparr>, length run)
                else if v = ''null'' then Inr (\<lparr>Type = TokenNull, Value = v\<rparr>, length run)
                else Inl (Panic (''Unexpected keyword: '' @ v)))
          else Inr (\<lparr>Type = TokenEOF, Value = ''''\<rparr>, 0))"

definition scan_text :: "string \<Rightarrow> panic + Token \<times> nat" where
  "scan_text s =
     (let w = length (takeWhile IsSpace s)
      in map_sum id (\<lambda>(t, k). (t, w + k)) (scan_first (dropWhile IsSpace s)))"

lemma slice_run:
  assumes run: "run = takeWhile P (drop j inp)" and j: "j < length inp" and ne: "run \<noteq> []"
  shows "slice inp (int (pos (lexer_at inp j)) - 1) (int (pos (lexer_at inp (j + length run))) - 1)
         = Inr (if j + length run < length inp then run else butlast run)"
proof -
  have le: "j + length run \<le> length inp"
    using length_takeWhile_le [of P "drop j inp"] j by (simp add: run)
  have pre: "take (length run) (drop j inp) = run"
    unfolding run by (metis takeWhile_eq_take)
  have pos: "0 < length run" using ne by simp
  show ?thesis
  proof (cases "j + length run < length inp")
    case True
    then show ?thesis using j pre by (simp add: slice_def pos_at min_def)
  next
    case False
    with le have e: "j + length run = length inp" by simp
    then have "run = drop j inp" using pre by simp
    moreover have "take (length inp - 1 - j) (drop j inp) = butlast (drop j inp)"
      by (simp add: butlast_conv_take)
    moreover have "nat (int (length inp) - 1 - int j) = length inp - 1 - j"
      using j by arith
    ultimately show ?thesis using j e pos False
      by (simp add: slice_def pos_at min_def)
  qed
qed

lemma Lexer_nextToken_at:
  "Lexer_nextToken (lexer_at inp i) =
   map_sum id (\<lambda>(t, k). (t, lexer_at inp (i + k))) (scan_text (drop i inp))"
proof -
  define s where "s = drop i inp"
  define w where "w = length (takeWhile IsSpace s)"
  define l where "l = lexer_at inp (i + w)"
  have sk: "skipWhitespace (lexer_at inp i) = l"
    by (simp add: skipWhitespace_at l_def w_def s_def)
  have d1: "drop (i + w) inp = dropWhile IsSpace s"
    by (simp add: s_def w_def dropWhile_eq_drop add.commute)
  show ?thesis
  proof (cases "dropWhile IsSpace s")
    case Nil
    have "drop (i + w) inp = []" by (simp only: d1 Nil)
    then have "current l = CHR 0x00" by (simp add: l_def current_at_drop)
    moreover have "scan_text s = Inr (\<lparr>Type = TokenEOF, Value = ''''\<rparr>, w)"
      by (simp add: scan_text_def scan_first_def Let_def Nil flip: w_def)
    ultimately show ?thesis
      by (simp add: Lexer_nextToken_def sk IsDigit_def IsLetter_def l_def flip: s_def)
  next
    case (Cons c cs)
    have d2: "drop (i + w) inp = c # cs" by (simp only: d1 Cons)
    then have cur: "current l = c" by (simp add: l_def current_at_drop)
    have lt: "i + w < length inp" using d2 by (cases "i + w < length inp") auto
    have adv: "advance l = lexer_at inp (i + (w + 1))" by (simp add: l_def advance_at)
    have str: "readString l =
        (\<lparr>Type = TokenString, Value = concat (map WriteRune (takeWhile IsStringChar cs))\<rparr>,
         lexer_at inp (i + (w + length (takeWhile IsStringChar cs) + 2)))"
    proof -
      have "drop (Suc (i + w)) inp = cs" using d2 by (metis drop_Suc tl_drop list.sel(3))
      then show ?thesis
        by (simp add: readString_def l_def advance_at readString_loop_at add.assoc)
    qed
    define nrun where "nrun = takeWhile IsNumberChar (c # cs)"
    define lrun where "lrun = takeWhile IsLetter (c # cs)"
    have "length (drop (i + w) inp) = Suc (length cs)" by (simp only: d2 length_Cons)
    then have eoi: "(i + (w + n) < length inp) = (n < Suc (length cs))" for n
      by auto
    have num: "readNumber l =
        Inr (\<lparr>Type = TokenNumber,
              Value = (if length nrun < Suc (length cs) then nrun else butlast nrun)\<rparr>,
             lexer_at inp (i + (w + length nrun)))" if "IsDigit c \<or> c = CHR ''-''"
    proof -
      have nc: "IsNumberChar c" using that by (auto simp: IsNumberChar_def)
      have loop: "readNumber_loop l = lexer_at inp (i + w + length nrun)"
        by (simp only: l_def readNumber_loop_at d2 nrun_def)
      have "slice inp (int (pos l) - 1) (int (pos (lexer_at inp (i + w + length nrun))) - 1) =
          Inr (if i + w + length nrun < length inp then nrun else butlast nrun)"
        unfolding l_def by (rule slice_run [where P = IsNumberChar]) (simp_all add: d2 nrun_def lt nc)
      then show ?thesis by (simp add: readNumber_def Let_def loop input_at add.assoc eoi)
    qed
    have kw: "readKeyword l =
        (let v = (if length lrun < Suc (length cs) then lrun else butlast lrun)
         in if v = ''true'' \<or> v = ''false''
            then Inr (\<lparr>Type = TokenBoolean, Value = v\<rparr>, lexer_at inp (i + (w + length lrun)))
            else if v = ''null''
            then Inr (\<lparr>Type = TokenNull, Value = v\<rparr>, lexer_at inp (i + (w + length lrun)))
            else Inl (Panic (''Unexpected keyword: '' @ v)))" if "IsLetter c"
    proof -
      have loop: "readKeyword_loop l = lexer_at inp (i + w + length lrun)"
        by (simp only: l_def readKeyword_loop_at d2 lrun_def)
      have "slice inp (int (pos l) - 1) (int (pos (lexer_at inp (i + w + length lrun))) - 1) =
          Inr (if i + w + length lrun < length inp then lrun else butlast lrun)"
        unfolding l_def by (rule slice_run [where P = IsLetter]) (simp_all add: d2 lrun_def lt that)
      then show ?thesis by (simp add: readKeyword_def Let_def loop input_at add.assoc eoi)
    qed
    have sc: "scan_text s =
         (if c = CHR ''{'' then Inr (\<lparr>Type = TokenLeftBrace, Value = ''{''\<rparr>, w + 1)
          else if c = CHR ''}'' then Inr (\<lparr>Type = TokenRightBrace, Value = ''}''\<rparr>, w + 1)
          else if c = CHR ''['' then Inr (\<lparr>Type = TokenLeftBracket, Value = ''[''\<rparr>, w + 1)
          else if c = CHR '']'' then Inr (\<lparr>Type = TokenRightBracket, Value = '']''\<rparr>, w + 1)
          else if c = CHR '':'' then Inr (\<lparr>Type = TokenColon, Value = '':''\<rparr>, w + 1)
          else if c = CHR '','' then Inr (\<lparr>Type = TokenComma, Value = '',''\<rparr>, w + 1)
          else if c = CHR 0x22 then
            Inr (\<lparr>Type = TokenString, Value = concat (map WriteRune (takeWhile IsStringChar cs))\<rparr>,
                 w + length (takeWhile IsStringChar cs) + 2)
          else if IsDigit c \<or> c = CHR ''-'' then
            Inr (\<lparr>Type = TokenNumber,
                  Value = (if length nrun < Suc (length cs) then nrun else butlast nrun)\<rparr>,
                 w + length nrun)
          else if IsLetter c then
            (let v = (if length lrun < Suc (length cs) then lrun else butlast lrun)
             in if v = ''true'' \<or> v = ''false''
                then Inr (\<lparr>Type = TokenBoolean, Value = v\<rparr>, w + length lrun)
                else if v = ''null'' then Inr (\<lparr>Type = TokenNull, Value = v\<rparr>, w + length lrun)
                else Inl (Panic (''Unexpected keyword: '' @ v)))
          else Inr (\<lparr>Type = TokenEOF, Value = ''''\<rparr>, w))"
      by (simp add: scan_text_def scan_first_def Let_def Cons
          flip: w_def nrun_def lrun_def del: takeWhile.simps)
    show ?thesis
      unfolding Lexer_nextToken_def sk s_def [symmetric] sc
      by (simp add: Let_def cur adv str num kw flip: l_def)
  qed
qed

section \<open>Two runs of the parser\<close>

text \<open>
  The parser reads its lexer only through \<open>Parser_nextToken\<close>. So when a relation \<open>R\<close>
  between parser states keeps the lookahead tokens equal and is kept by
  \<open>Parser_nextToken\<close> (with panics related by \<open>Q\<close>), the results of each method on two
  related states are related: the same value with related states, or related panics.
\<close>

lemma rel_sum_bind:
  assumes "rel_sum Q R a b"
    and "\<And>x y. a = Inr x \<Longrightarrow> b = Inr y \<Longrightarrow> R x y \<Longrightarrow> rel_sum Q S (f x) (g y)"
  shows "rel_sum Q S (case a of Inl e \<Rightarrow> Inl e | Inr x \<Rightarrow> f x)
                     (case b of Inl e \<Rightarrow> Inl e | Inr y \<Rightarrow> g y)"
  using assms by (auto elim!: rel_sum.cases)

lemma parse_rel:
  assumes tok: "\<And>p q. R p q \<Longrightarrow> token q = token p"
    and nxt: "\<And>p q. R p q \<Longrightarrow> rel_sum Q R (Parser_nextToken p) (Parser_nextToken q)"
    and q1: "Q (Panic ''Expected string key in object'') (Panic ''Expected string key in object'')"
    and q2: "Q (Panic ''Expected ':' after key'') (Panic ''Expected ':' after key'')"
    and q3: "Q (Panic ''Expected ',' or '}' in object'') (Panic ''Expected ',' or '}' in object'')"
    and q4: "Q (Panic ''Expected ',' or ']' in array'') (Panic ''Expected ',' or ']' in array'')"
    and q5: "\<And>v. Q (Panic (''Unexpected token: '' @ v)) (Panic (''Unexpected token: '' @ v))"
  shows "R p1 r1 \<Longrightarrow> rel_sum Q (rel_prod (=) R) (parseObject p1) (parseObject r1)"
    and "R p2 r2 \<Longrightarrow> rel_sum Q (rel_prod (=) R) (parseObject_loop obj p2) (parseObject_loop obj r2)"
    and "R p3 r3 \<Longrightarrow> rel_sum Q (rel_prod (=) R) (parseArray p3) (parseArray r3)"
    and "R p4 r4 \<Longrightarrow> rel_sum Q (rel_prod (=) R) (parseArray_loop arr p4) (parseArray_loop arr r4)"
    and "R p5 r5 \<Longrightarrow> rel_sum Q (rel_prod (=) R) (parseValue p5) (parseValue r5)"
proof (induction p1 and obj p2 and p3 and arr p4 and p5
    arbitrary: r1 and r2 and r3 and r4 and r5
    rule: parseObject_parseObject_loop_parseArray_parseArray_loop_parseValue.induct)
  case (1 p)
  show ?case
    unfolding parseObject.simps [of p] parseObject.simps [of r1]
    by (rule rel_sum_bind [OF nxt [OF "1.prems"]]) (rule "1.IH")
next
  case (2 obj p)
  note t = tok [OF "2.prems"]
  show ?case
  proof (cases "Type (token p) = TokenRightBrace")
    case True
    have "rel_sum Q (rel_prod (=) R)
        (case Parser_nextToken p of Inl e \<Rightarrow> Inl e | Inr p1 \<Rightarrow> Inr (VObject obj, p1))
        (case Parser_nextToken r2 of Inl e \<Rightarrow> Inl e | Inr p1 \<Rightarrow> Inr (VObject obj, p1))"
      by (rule rel_sum_bind [OF nxt [OF "2.prems"]]) simp
    then show ?thesis
      unfolding parseObject_loop.simps [of obj p] parseObject_loop.simps [of obj r2]
      using True t by simp
  next
    case nrb: False
    show ?thesis
    proof (cases "Type (token p) = TokenString")
      case False
      then show ?thesis
        unfolding parseObject_loop.simps [of obj p] parseObject_loop.simps [of obj r2]
        using nrb t q1 by simp
    next
      case str: True
      have ns: "\<not> Type (token p) \<noteq> TokenString" using str by simp
      let ?k = "Value (token p)"
      let ?rest = "\<lambda>v y. let obj' = AList.update ?k v obj in
                         if Type (token y) = TokenComma then
                           (case Parser_nextToken y of
                              Inl e \<Rightarrow> Inl e
                            | Inr p4 \<Rightarrow> parseObject_loop obj' p4)
                         else if Type (token y) \<noteq> TokenRightBrace
                         then Inl (Panic ''Expected ',' or '}' in object'')
                         else parseObject_loop obj' y"
      let ?val = "\<lambda>b. if Type (token b) \<noteq> TokenColon then Inl (Panic ''Expected ':' after key'')
              else
                case Parser_nextToken b of
                  Inl e \<Rightarrow> Inl e
                | Inr p2 \<Rightarrow>
                    (case parseValue p2 of
                       Inl e \<Rightarrow> Inl e
                     | Inr (v, p3) \<Rightarrow> ?rest v p3)"
      have "rel_sum Q (rel_prod (=) R)
        (case Parser_nextToken p of Inl e \<Rightarrow> Inl e | Inr b \<Rightarrow> ?val b)
        (case Parser_nextToken r2 of Inl e \<Rightarrow> Inl e | Inr b \<Rightarrow> ?val b)"
      proof (rule rel_sum_bind [OF nxt [OF "2.prems"]])
        fix b b' assume b: "Parser_nextToken p = Inr b" "Parser_nextToken r2 = Inr b'" "R b b'"
        note tb = tok [OF b(3)]
        show "rel_sum Q (rel_prod (=) R) (?val b) (?val b')"
        proof (cases "Type (token b) = TokenColon")
          case False
          then show ?thesis using tb q2 by simp
        next
          case colon: True
          have nc: "\<not> Type (token b) \<noteq> TokenColon" using colon by simp
          have "rel_sum Q (rel_prod (=) R)
              (case Parser_nextToken b of Inl e \<Rightarrow> Inl e
               | Inr p2 \<Rightarrow> (case parseValue p2 of Inl e \<Rightarrow> Inl e | Inr (v, p3) \<Rightarrow> ?rest v p3))
              (case Parser_nextToken b' of Inl e \<Rightarrow> Inl e
               | Inr p2 \<Rightarrow> (case parseValue p2 of Inl e \<Rightarrow> Inl e | Inr (v, p3) \<Rightarrow> ?rest v p3))"
          proof (rule rel_sum_bind [OF nxt [OF b(3)]])
            fix ba ba' assume ba: "Parser_nextToken b = Inr ba" "Parser_nextToken b' = Inr ba'" "R ba ba'"
            have pv: "rel_sum Q (rel_prod (=) R) (parseValue ba) (parseValue ba')"
              by (rule "2.IH"(1) [OF nrb ns refl b(1) nc ba(1) ba(3)])
            show "rel_sum Q (rel_prod (=) R)
                (case parseValue ba of Inl e \<Rightarrow> Inl e | Inr (v, p3) \<Rightarrow> ?rest v p3)
                (case parseValue ba' of Inl e \<Rightarrow> Inl e | Inr (v, p3) \<Rightarrow> ?rest v p3)"
            proof (rule rel_sum_bind [OF pv], goal_cases)
              case (1 x y)
              obtain v p3 where x: "x = (v, p3)" by (cases x)
              obtain v' p3' where y: "y = (v', p3')" by (cases y)
              from 1(3) x y have vv: "v' = v" and r3: "R p3 p3'" by simp_all
              note t3 = tok [OF r3]
              have pvx: "parseValue ba = Inr (v, p3)" using 1(1) x by simp
              have "rel_sum Q (rel_prod (=) R) (?rest v p3) (?rest v p3')"
              proof (cases "Type (token p3) = TokenComma")
                case comma: True
                have "rel_sum Q (rel_prod (=) R)
                    (case Parser_nextToken p3 of Inl e \<Rightarrow> Inl e
                     | Inr p4 \<Rightarrow> parseObject_loop (AList.update ?k v obj) p4)
                    (case Parser_nextToken p3' of Inl e \<Rightarrow> Inl e
                     | Inr p4 \<Rightarrow> parseObject_loop (AList.update ?k v obj) p4)"
                proof (rule rel_sum_bind [OF nxt [OF r3]])
                  fix bc bc' assume bc: "Parser_nextToken p3 = Inr bc" "Parser_nextToken p3' = Inr bc'" "R bc bc'"
                  show "rel_sum Q (rel_prod (=) R)
                      (parseObject_loop (AList.update ?k v obj) bc)
                      (parseObject_loop (AList.update ?k v obj) bc')"
                    by (rule "2.IH"(2) [OF nrb ns refl b(1) nc ba(1) pvx refl refl comma bc(1) bc(3)])
                qed
                then show ?thesis using comma t3 by (simp add: Let_def)
              next
                case ncomma: False
                show ?thesis
                proof (cases "Type (token p3) = TokenRightBrace")
                  case False
                  then show ?thesis using ncomma t3 q3 by (simp add: Let_def)
                next
                  case True
                  have nrb3: "\<not> Type (token p3) \<noteq> TokenRightBrace" using True by simp
                  have "rel_sum Q (rel_prod (=) R)
                      (parseObject_loop (AList.update ?k v obj) p3)
                      (parseObject_loop (AList.update ?k v obj) p3')"
                    by (rule "2.IH"(3) [OF nrb ns refl b(1) nc ba(1) pvx refl refl ncomma nrb3 r3])
                  then show ?thesis using ncomma True t3 by (simp add: Let_def)
                qed
              qed
              then show ?case using x y vv by simp
            qed
          qed
          then show ?thesis using colon tb by simp
        qed
      qed
      then show ?thesis
        unfolding parseObject_loop.simps [of obj p] parseObject_loop.simps [of obj r2]
        using nrb str t by (simp add: Let_def)
    qed
  qed
next
  case (3 p)
  show ?case
    unfolding parseArray.simps [of p] parseArray.simps [of r3]
    by (rule rel_sum_bind [OF nxt [OF "3.prems"]]) (rule "3.IH")
next
  case (4 arr p)
  note t = tok [OF "4.prems"]
  show ?case
  proof (cases "Type (token p) = TokenRightBracket")
    case True
    have "rel_sum Q (rel_prod (=) R)
        (case Parser_nextToken p of Inl e \<Rightarrow> Inl e | Inr p1 \<Rightarrow> Inr (VArray arr, p1))
        (case Parser_nextToken r4 of Inl e \<Rightarrow> Inl e | Inr p1 \<Rightarrow> Inr (VArray arr, p1))"
      by (rule rel_sum_bind [OF nxt [OF "4.prems"]]) simp
    then show ?thesis
      unfolding parseArray_loop.simps [of arr p] parseArray_loop.simps [of arr r4]
      using True t by simp
  next
    case nrb: False
    let ?rest = "\<lambda>v y. let arr' = arr @ [v] in
            if Type (token y) = TokenComma then
              (case Parser_nextToken y of
                 Inl e \<Rightarrow> Inl e
               | Inr p2 \<Rightarrow> parseArray_loop arr' p2)
            else if Type (token y) \<noteq> TokenRightBracket
            then Inl (Panic ''Expected ',' or ']' in array'')
            else parseArray_loop arr' y"
    have pv: "rel_sum Q (rel_prod (=) R) (parseValue p) (parseValue r4)"
      by (rule "4.IH"(1) [OF nrb "4.prems"])
    have "rel_sum Q (rel_prod (=) R)
        (case parseValue p of Inl e \<Rightarrow> Inl e | Inr (v, p1) \<Rightarrow> ?rest v p1)
        (case parseValue r4 of Inl e \<Rightarrow> Inl e | Inr (v, p1) \<Rightarrow> ?rest v p1)"
    proof (rule rel_sum_bind [OF pv], goal_cases)
      case (1 x y)
      obtain v p3 where x: "x = (v, p3)" by (cases x)
      obtain v' p3' where y: "y = (v', p3')" by (cases y)
      from 1(3) x y have vv: "v' = v" and r3: "R p3 p3'" by simp_all
      note t3 = tok [OF r3]
      have pvx: "parseValue p = Inr (v, p3)" using 1(1) x by simp
      have "rel_sum Q (rel_prod (=) R) (?rest v p3) (?rest v p3')"
      proof (cases "Type (token p3) = TokenComma")
        case comma: True
        have "rel_sum Q (rel_prod (=) R)
            (case Parser_nextToken p3 of Inl e \<Rightarrow> Inl e
             | Inr p4 \<Rightarrow> parseArray_loop (arr @ [v]) p4)
            (case Parser_nextToken p3' of Inl e \<Rightarrow> Inl e
             | Inr p4 \<Rightarrow> parseArray_loop (arr @ [v]) p4)"
        proof (rule rel_sum_bind [OF nxt [OF r3]])
          fix bc bc' assume bc: "Parser_nextToken p3 = Inr bc" "Parser_nextToken p3' = Inr bc'" "R bc bc'"
          show "rel_sum Q (rel_prod (=) R)
              (parseArray_loop (arr @ [v]) bc) (parseArray_loop (arr @ [v]) bc')"
            by (rule "4.IH"(2) [OF nrb pvx refl refl comma bc(1) bc(3)])
        qed
        then show ?thesis using comma t3 by (simp add: Let_def)
      next
        case ncomma: False
        show ?thesis
        proof (cases "Type (token p3) = TokenRightBracket")
          case False
          then show ?thesis using ncomma t3 q4 by (simp add: Let_def)
        next
          case True
          have nrb3: "\<not> Type (token p3) \<noteq> TokenRightBracket" using True by simp
          have "rel_sum Q (rel_prod (=) R)
              (parseArray_loop (arr @ [v]) p3) (parseArray_loop (arr @ [v]) p3')"
            by (rule "4.IH"(3) [OF nrb pvx refl refl ncomma nrb3 r3])
          then show ?thesis using ncomma True t3 by (simp add: Let_def)
        qed
      qed
      then show ?case using x y vv by simp
    qed
    then show ?thesis
      unfolding parseArray_loop.simps [of arr p] parseArray_loop.simps [of arr r4]
      using nrb t by (simp add: Let_def)
  qed
next
  case (5 p)
  note t = tok [OF "5.prems"]
  have scalar: "rel_sum Q (rel_prod (=) R)
      (case Parser_nextToken p of Inl e \<Rightarrow> Inl e | Inr p1 \<Rightarrow> Inr (v, p1))
      (case Parser_nextToken r5 of Inl e \<Rightarrow> Inl e | Inr p1 \<Rightarrow> Inr (v, p1))" for v
    by (rule rel_sum_bind [OF nxt [OF "5.prems"]]) simp
  show ?case
  proof (cases "Type (token p)")
    case TokenLeftBrace
    then show ?thesis
      unfolding parseValue.simps [of p] parseValue.simps [of r5]
      using "5.IH"(1) [OF TokenLeftBrace "5.prems"] t by simp
  next
    case TokenLeftBracket
    then show ?thesis
      unfolding parseValue.simps [of p] parseValue.simps [of r5]
      using "5.IH"(2) [OF TokenLeftBracket "5.prems"] t by simp
  qed (use t scalar q5 in \<open>simp_all add: parseValue.simps [of p] parseValue.simps [of r5] Let_def\<close>)
qed

section \<open>The loops, one turn at a time\<close>

text \<open>
  How a loop that returns went through its first turn. With \<open>parse_consumes\<close>, a property
  of the loops follows by induction on the parser's share of the input.
\<close>

lemma parseObject_loop_Inr_cases [consumes 1, case_names close comma last]:
  assumes "parseObject_loop obj p = Inr (v, q)"
  obtains
    (close) "Type (token p) = TokenRightBrace" "Parser_nextToken p = Inr q" "v = VObject obj"
  | (comma) b ba x y bc where
      "Type (token p) = TokenString" "Parser_nextToken p = Inr b"
      "Type (token b) = TokenColon" "Parser_nextToken b = Inr ba"
      "parseValue ba = Inr (x, y)" "Type (token y) = TokenComma" "Parser_nextToken y = Inr bc"
      "parseObject_loop (AList.update (Value (token p)) x obj) bc = Inr (v, q)"
  | (last) b ba x y where
      "Type (token p) = TokenString" "Parser_nextToken p = Inr b"
      "Type (token b) = TokenColon" "Parser_nextToken b = Inr ba"
      "parseValue ba = Inr (x, y)" "Type (token y) = TokenRightBrace"
      "parseObject_loop (AList.update (Value (token p)) x obj) y = Inr (v, q)"
  using assms
  by (subst (asm) parseObject_loop.simps)
     (auto split: if_splits sum.splits simp: Let_def)

lemma parseArray_loop_Inr_cases [consumes 1, case_names close comma last]:
  assumes "parseArray_loop arr p = Inr (v, q)"
  obtains
    (close) "Type (token p) = TokenRightBracket" "Parser_nextToken p = Inr q" "v = VArray arr"
  | (comma) x y bc where
      "Type (token p) \<noteq> TokenRightBracket"
      "parseValue p = Inr (x, y)" "Type (token y) = TokenComma" "Parser_nextToken y = Inr bc"
      "parseArray_loop (arr @ [x]) bc = Inr (v, q)"
  | (last) x y where
      "Type (token p) \<noteq> TokenRightBracket"
      "parseValue p = Inr (x, y)" "Type (token y) = TokenRightBracket"
      "parseArray_loop (arr @ [x]) y = Inr (v, q)"
  using assms
  by (subst (asm) parseArray_loop.simps)
     (auto split: if_splits sum.splits simp: Let_def)

lemma parseObject_loop_VObject:
  "parseObject_loop obj p = Inr (v, q) \<Longrightarrow> \<exists>m. v = VObject m"
proof (induction "lookahead p" arbitrary: obj p rule: less_induct)
  case less
  from less.prems show ?case
  proof (cases rule: parseObject_loop_Inr_cases)
    case close
    then show ?thesis by simp
  next
    case (comma b ba x y bc)
    have "lookahead bc < lookahead p"
      using parse_consumes(5) [OF comma(5)] Parser_nextToken_le [OF comma(2)]
        Parser_nextToken_le [OF comma(4)] Parser_nextToken_le [OF comma(7)] by simp
    from less.hyps [OF this comma(8)] show ?thesis .
  next
    case (last b ba x y)
    have "lookahead y < lookahead p"
      using parse_consumes(5) [OF last(5)] Parser_nextToken_le [OF last(2)]
        Parser_nextToken_le [OF last(4)] by simp
    from less.hyps [OF this last(7)] show ?thesis .
  qed
qed

lemma parseArray_loop_VArray:
  "parseArray_loop arr p = Inr (v, q) \<Longrightarrow> \<exists>m. v = VArray m"
proof (induction "lookahead p" arbitrary: arr p rule: less_induct)
  case less
  from less.prems show ?case
  proof (cases rule: parseArray_loop_Inr_cases)
    case close
    then show ?thesis by simp
  next
    case (comma x y bc)
    have "lookahead bc < lookahead p"
      using parse_consumes(5) [OF comma(2)] Parser_nextToken_le [OF comma(4)] by simp
    from less.hyps [OF this comma(5)] show ?thesis .
  next
    case (last x y)
    have "lookahead y < lookahead p"
      using parse_consumes(5) [OF last(2)] by simp
    from less.hyps [OF this last(4)] show ?thesis .
  qed
qed

lemma parseObject_VObject: "parseObject p = Inr (v, q) \<Longrightarrow> \<exists>m. v = VObject m"
  by (subst (asm) parseObject.simps) (auto split: sum.splits dest: parseObject_loop_VObject)

lemma parseArray_VArray: "parseArray p = Inr (v, q) \<Longrightarrow> \<exists>m. v = VArray m"
  by (subst (asm) parseArray.simps) (auto split: sum.splits dest: parseArray_loop_VArray)

subsection \<open>What the text at the cursor gives\<close>

lemma scan_text_nospace: "\<not> IsSpace c \<Longrightarrow> scan_text (c # s) = scan_first (c # s)"
  by (cases "scan_first (c # s)") (auto simp: scan_text_def)

lemma scan_text_space:
  assumes "IsSpace c"
  shows "scan_text (c # s) = map_sum id (\<lambda>(t, k). (t, Suc k)) (scan_text s)"
  using assms
  by (cases "scan_first (dropWhile IsSpace s)") (auto simp: scan_text_def)

lemma scan_text_punct:
  "scan_text (CHR ''{'' # s) = Inr (\<lparr>Type = TokenLeftBrace, Value = ''{''\<rparr>, 1)"
  "scan_text (CHR ''}'' # s) = Inr (\<lparr>Type = TokenRightBrace, Value = ''}''\<rparr>, 1)"
  "scan_text (CHR ''['' # s) = Inr (\<lparr>Type = TokenLeftBracket, Value = ''[''\<rparr>, 1)"
  "scan_text (CHR '']'' # s) = Inr (\<lparr>Type = TokenRightBracket, Value = '']''\<rparr>, 1)"
  "scan_text (CHR '':'' # s) = Inr (\<lparr>Type = TokenColon, Value = '':''\<rparr>, 1)"
  "scan_text (CHR '','' # s) = Inr (\<lparr>Type = TokenComma, Value = '',''\<rparr>, 1)"
  by (simp_all add: scan_text_nospace scan_first_def IsSpace_def)

lemma not_space_quote: "\<not> IsSpace (CHR 0x22)"
  by (simp add: IsSpace_def)

lemma scan_text_string:
  assumes "\<forall>c\<in>set body. IsStringChar c"
  shows "scan_text (CHR 0x22 # body @ CHR 0x22 # rest) =
         Inr (\<lparr>Type = TokenString, Value = concat (map WriteRune body)\<rparr>, length body + 2)"
proof -
  have tw: "takeWhile IsStringChar (body @ CHR 0x22 # rest) = body"
    using assms by (simp add: takeWhile_append2 IsStringChar_def)
  show ?thesis
    by (simp add: scan_text_nospace not_space_quote scan_first_def Let_def tw)
qed

lemma scan_text_string_eoi:
  assumes "\<forall>c\<in>set body. IsStringChar c"
  shows "scan_text (CHR 0x22 # body) =
         Inr (\<lparr>Type = TokenString, Value = concat (map WriteRune body)\<rparr>, length body + 2)"
proof -
  have tw: "takeWhile IsStringChar body = body"
    using assms by (simp add: takeWhile_eq_all_conv)
  show ?thesis
    by (simp add: scan_text_nospace not_space_quote scan_first_def Let_def tw)
qed

lemma number_start_not_other:
  "IsDigit c \<or> c = CHR ''-'' \<Longrightarrow>
   \<not> IsSpace c \<and> c \<noteq> CHR ''{'' \<and> c \<noteq> CHR ''}'' \<and> c \<noteq> CHR ''['' \<and> c \<noteq> CHR '']'' \<and>
   c \<noteq> CHR '':'' \<and> c \<noteq> CHR '','' \<and> c \<noteq> CHR 0x22"
  by (auto simp: IsDigit_def IsSpace_def Let_def)

lemma letter_not_other:
  "IsLetter c \<Longrightarrow>
   \<not> IsSpace c \<and> \<not> IsDigit c \<and> c \<noteq> CHR ''-'' \<and>
   c \<noteq> CHR ''{'' \<and> c \<noteq> CHR ''}'' \<and> c \<noteq> CHR ''['' \<and> c \<noteq> CHR '']'' \<and> c \<noteq> CHR '':'' \<and>
   c \<noteq> CHR '','' \<and> c \<noteq> CHR 0x22"
  by (auto simp: IsLetter_def IsSpace_def IsDigit_def Let_def)

lemma scan_first_number:
  assumes "IsDigit c \<or> c = CHR ''-''" and "takeWhile IsNumberChar (c # cs) = run"
    and "length run < Suc (length cs)"
  shows "scan_first (c # cs) = Inr (\<lparr>Type = TokenNumber, Value = run\<rparr>, length run)"
  unfolding scan_first_def Let_def list.case assms(2)
  using number_start_not_other [OF assms(1)] assms(1,3) by simp

lemma scan_first_letter:
  assumes "IsLetter c" and "takeWhile IsLetter (c # cs) = run" and "length run < Suc (length cs)"
  shows "scan_first (c # cs) =
     (if run = ''true'' \<or> run = ''false'' then Inr (\<lparr>Type = TokenBoolean, Value = run\<rparr>, length run)
      else if run = ''null'' then Inr (\<lparr>Type = TokenNull, Value = run\<rparr>, length run)
      else Inl (Panic (''Unexpected keyword: '' @ run)))"
  unfolding scan_first_def Let_def list.case assms(2)
  using letter_not_other [OF assms(1)] assms(1,3) by auto

lemma scan_text_number:
  assumes ne: "run \<noteq> []" and st: "IsDigit (hd run) \<or> hd run = CHR ''-''"
    and all: "\<forall>c\<in>set run. IsNumberChar c" and stop: "\<not> IsNumberChar d"
  shows "scan_text (run @ d # rest) = Inr (\<lparr>Type = TokenNumber, Value = run\<rparr>, length run)"
proof -
  obtain c cs where run: "run = c # cs" using ne by (cases run) auto
  have c: "IsDigit c \<or> c = CHR ''-''" using st run by simp
  have tw: "takeWhile IsNumberChar (c # cs @ d # rest) = run"
    using all stop run takeWhile_append2 [of run IsNumberChar "d # rest"] by simp
  have len: "length run < Suc (length (cs @ d # rest))" by (simp add: run)
  have nsp: "\<not> IsSpace c" using number_start_not_other [OF c] by simp
  have "scan_text (run @ d # rest) = scan_first (c # cs @ d # rest)"
    by (simp only: run append_Cons scan_text_nospace [OF nsp])
  also have "\<dots> = Inr (\<lparr>Type = TokenNumber, Value = run\<rparr>, length run)"
    by (rule scan_first_number [OF c tw len])
  finally show ?thesis .
qed

lemma scan_text_word:
  assumes ne: "run \<noteq> []" and all: "\<forall>c\<in>set run. IsLetter c" and stop: "\<not> IsLetter d"
  shows "scan_text (run @ d # rest) =
     (if run = ''true'' \<or> run = ''false'' then Inr (\<lparr>Type = TokenBoolean, Value = run\<rparr>, length run)
      else if run = ''null'' then Inr (\<lparr>Type = TokenNull, Value = run\<rparr>, length run)
      else Inl (Panic (''Unexpected keyword: '' @ run)))"
proof -
  obtain c cs where run: "run = c # cs" using ne by (cases run) auto
  have c: "IsLetter c" using all run by simp
  have tw: "takeWhile IsLetter (c # cs @ d # rest) = run"
    using all stop run takeWhile_append2 [of run IsLetter "d # rest"] by simp
  have len: "length run < Suc (length (cs @ d # rest))" by (simp add: run)
  have nsp: "\<not> IsSpace c" using letter_not_other [OF c] by simp
  have "scan_text (run @ d # rest) = scan_first (c # cs @ d # rest)"
    by (simp only: run append_Cons scan_text_nospace [OF nsp])
  also note scan_first_letter [OF c tw len]
  finally show ?thesis .
qed

lemma scan_text_panic: "scan_text s = Inl e \<Longrightarrow> \<exists>v. e = Panic (''Unexpected keyword: '' @ v)"
  by (cases "dropWhile IsSpace s")
     (auto simp: scan_text_def scan_first_def Let_def split: if_splits)

section \<open>The panics of the program\<close>

text \<open>
  The source has seven calls of \<^verbatim>\<open>panic\<close>: five with a fixed message, and two whose message
  is a fixed text followed by a token's text. \<open>source_panic\<close> holds of a panic raised by one
  of the seven, and not of a run-time error of the language.
\<close>

definition source_panic :: "panic \<Rightarrow> bool" where
  "source_panic e =
     (case e of
        RuntimeError m \<Rightarrow> False
      | Panic m \<Rightarrow>
          m = ''Invalid JSON start'' \<or>
          m = ''Expected string key in object'' \<or>
          m = ''Expected ':' after key'' \<or>
          m = ''Expected ',' or '}' in object'' \<or>
          m = ''Expected ',' or ']' in array'' \<or>
          take 18 m = ''Unexpected token: '' \<or>
          take 20 m = ''Unexpected keyword: '')"

definition on_input :: "string \<Rightarrow> Parser \<Rightarrow> bool" where
  "on_input inp p = (\<exists>i. lexer p = lexer_at inp i)"

lemma Parser_nextToken_on_input:
  assumes "on_input inp p"
  shows "rel_sum (\<lambda>e e'. e' = e \<and> source_panic e) (\<lambda>p q. q = p \<and> on_input inp p)
     (Parser_nextToken p) (Parser_nextToken p)"
proof -
  from assms obtain i where i: "lexer p = lexer_at inp i" by (auto simp: on_input_def)
  show ?thesis
  proof (cases "scan_text (drop i inp)")
    case (Inl e)
    then obtain v where "e = Panic (''Unexpected keyword: '' @ v)" by (auto dest: scan_text_panic)
    then show ?thesis using Inl
      by (simp add: Parser_nextToken_def i Lexer_nextToken_at source_panic_def)
  next
    case (Inr r)
    then show ?thesis
      by (cases r) (auto simp: Parser_nextToken_def i Lexer_nextToken_at on_input_def)
  qed
qed

lemma parse_on_input:
  assumes "on_input inp p"
  shows "rel_sum (\<lambda>e e'. e' = e \<and> source_panic e) (rel_prod (=) (\<lambda>p q. q = p \<and> on_input inp p))
           (parseObject p) (parseObject p)"
    and "rel_sum (\<lambda>e e'. e' = e \<and> source_panic e) (rel_prod (=) (\<lambda>p q. q = p \<and> on_input inp p))
           (parseArray p) (parseArray p)"
proof -
  let ?R = "\<lambda>p q. q = p \<and> on_input inp p"
  let ?Q = "\<lambda>e e'. e' = e \<and> source_panic e"
  have tok: "\<And>p q. ?R p q \<Longrightarrow> token q = token p" by simp
  have nxt: "\<And>p q. ?R p q \<Longrightarrow> rel_sum ?Q ?R (Parser_nextToken p) (Parser_nextToken q)"
    using Parser_nextToken_on_input by simp
  have q1: "?Q (Panic ''Expected string key in object'') (Panic ''Expected string key in object'')"
    and q2: "?Q (Panic ''Expected ':' after key'') (Panic ''Expected ':' after key'')"
    and q3: "?Q (Panic ''Expected ',' or '}' in object'') (Panic ''Expected ',' or '}' in object'')"
    and q4: "?Q (Panic ''Expected ',' or ']' in array'') (Panic ''Expected ',' or ']' in array'')"
    and q5: "\<And>v. ?Q (Panic (''Unexpected token: '' @ v)) (Panic (''Unexpected token: '' @ v))"
    by (simp_all add: source_panic_def)
  have r: "?R p p" using assms by simp
  show "rel_sum ?Q (rel_prod (=) ?R) (parseObject p) (parseObject p)"
    by (rule parse_rel(1) [where R = ?R and Q = ?Q, OF tok nxt q1 q2 q3 q4 q5 r])
  show "rel_sum ?Q (rel_prod (=) ?R) (parseArray p) (parseArray p)"
    by (rule parse_rel(3) [where R = ?R and Q = ?Q, OF tok nxt q1 q2 q3 q4 q5 r])
qed

lemma parseJSON_on_input:
  assumes "on_input inp p"
  shows "case parseJSON p of
           Inl e \<Rightarrow> source_panic e
         | Inr (v, q) \<Rightarrow> (\<exists>m. v = VObject m) \<or> (\<exists>a. v = VArray a)"
proof (cases "Type (token p)")
  case TokenLeftBrace
  then show ?thesis
    using parse_on_input(1) [OF assms]
    by (auto simp: parseJSON_def split: sum.splits dest: parseObject_VObject)
next
  case TokenLeftBracket
  then show ?thesis
    using parse_on_input(2) [OF assms]
    by (auto simp: parseJSON_def split: sum.splits dest: parseArray_VArray)
qed (simp_all add: parseJSON_def source_panic_def)

subsection \<open>The depth of the recursion\<close>

text \<open>
  The three parser methods call each other once for each nested \<^verbatim>\<open>{\<close> or \<^verbatim>\<open>[\<close>, with no
  limit of their own, and the Go runtime ends the process with a fatal error when the
  stack of the goroutine is exhausted. The functions of this theory have no stack. The
  calls nest at most as deep as the input has opening braces and brackets, \<open>openers\<close>,
  and statements about every outcome of the program are made for inputs within
  \<open>nesting_limit\<close>, which is far below what the default stack of the runtime holds.
\<close>

definition openers :: "string \<Rightarrow> nat" where
  "openers inp = length (filter (\<lambda>c. c = CHR ''{'' \<or> c = CHR ''['') inp)"

definition nesting_limit :: nat where
  "nesting_limit = 10000"

lemma Parser_nextToken_at:
  "lexer p = lexer_at inp i \<Longrightarrow>
   Parser_nextToken p =
     map_sum id (\<lambda>(t, k). p\<lparr>lexer := lexer_at inp (i + k), token := t\<rparr>) (scan_text (drop i inp))"
  by (cases "scan_text (drop i inp)") (auto simp: Parser_nextToken_def Lexer_nextToken_at)

section \<open>The members of an object, in source order\<close>



definition store_all :: "(string \<times> value) list \<Rightarrow> (string \<times> value) list \<Rightarrow> (string \<times> value) list" where
  "store_all obj kvs = foldl (\<lambda>m (k, v). AList.update k v m) obj kvs"

lemma store_all_simps [simp]:
  "store_all obj [] = obj"
  "store_all obj ((k, v) # kvs) = store_all (AList.update k v obj) kvs"
  by (simp_all add: store_all_def)




section \<open>White space between tokens\<close>

text \<open>
  \<open>ws_ins s t\<close>: the text \<open>t\<close> is the text \<open>s\<close> with spaces, tabs, line feeds and carriage
  returns inserted between lexemes. From left to right, \<open>t\<close> copies a whole lexeme of
  \<open>s\<close> (\<open>keep\<close>), or has one more white-space character (\<open>insert\<close>), until the rest is
  copied as it is (\<open>same\<close>). A lexeme is a punctuation character, a white-space
  character, a string literal, or a whole run of number characters or of letters, up to
  a next character that is not of the run. The string literals are restricted to those
  with no quote between their two quotes, escaped or not: the lexer ends a literal at the
  first quote, so a literal with an escaped quote is not one token to it, and white
  space inserted after such a literal may fall inside what the lexer reads as the next
  string. Nothing is inserted inside a lexeme, so nothing inside a string literal; a run
  that reaches the end of the text is not a lexeme, and nothing can be inserted after it.
\<close>

definition is_white :: "char \<Rightarrow> bool" where
  "is_white c = (c = CHR '' '' \<or> c = CHR 0x09 \<or> c = CHR 0x0A \<or> c = CHR 0x0D)"

inductive lexeme :: "string \<Rightarrow> string \<Rightarrow> bool" where
  punct: "c \<in> set ''{}[]:,'' \<Longrightarrow> lexeme [c] rest"
| space: "IsSpace c \<Longrightarrow> lexeme [c] rest"
| string: "\<forall>c\<in>set body. c \<noteq> CHR 0x22 \<and> c \<noteq> CHR 0x00 \<Longrightarrow>
     lexeme (CHR 0x22 # body @ [CHR 0x22]) rest"
| number: "run \<noteq> [] \<Longrightarrow> IsDigit (hd run) \<or> hd run = CHR ''-'' \<Longrightarrow>
     \<forall>c\<in>set run. IsDigit c \<or> c = CHR ''.'' \<or> c = CHR ''-'' \<Longrightarrow>
     \<not> (IsDigit d \<or> d = CHR ''.'' \<or> d = CHR ''-'') \<Longrightarrow> lexeme run (d # rest)"
| word: "run \<noteq> [] \<Longrightarrow> \<forall>c\<in>set run. IsLetter c \<Longrightarrow> \<not> IsLetter d \<Longrightarrow> lexeme run (d # rest)"

inductive ws_ins :: "string \<Rightarrow> string \<Rightarrow> bool" where
  same: "ws_ins s s"
| insert: "is_white c \<Longrightarrow> ws_ins s t \<Longrightarrow> ws_ins s (c # t)"
| keep: "lexeme x s \<Longrightarrow> ws_ins s t \<Longrightarrow> ws_ins (x @ s) (x @ t)"

lemma is_white_IsSpace: "is_white c \<Longrightarrow> IsSpace c"
  by (auto simp: is_white_def IsSpace_def)

lemma is_white_not_run: "is_white c \<Longrightarrow> \<not> IsNumberChar c \<and> \<not> IsLetter c"
  by (auto simp: is_white_def IsNumberChar_def IsDigit_def IsLetter_def)

lemma lexeme_not_Nil: "lexeme x s \<Longrightarrow> x \<noteq> []"
  by (induction rule: lexeme.induct) auto

lemma ws_ins_head:
  "ws_ins s t \<Longrightarrow> s = d # s' \<Longrightarrow> \<exists>d' t'. t = d' # t' \<and> (d' = d \<or> is_white d')"
proof (induction arbitrary: d s' rule: ws_ins.induct)
  case (same s)
  then show ?case by simp
next
  case (insert c s t)
  then show ?case by simp
next
  case (keep x s t)
  from lexeme_not_Nil [OF keep(1)] obtain a as where "x = a # as" by (cases x) auto
  with keep(4) show ?case by simp
qed

text \<open>
  Reading one token from \<open>u\<close> and from \<open>v\<close>, when \<open>v\<close> is \<open>u\<close> with white space inserted:
  the same token and texts that are again related, or the same panic.
\<close>

definition scan_rel :: "string \<Rightarrow> string \<Rightarrow> panic + Token \<times> nat \<Rightarrow> panic + Token \<times> nat \<Rightarrow> bool" where
  "scan_rel u v = rel_sum (=) (\<lambda>a b. fst b = fst a \<and> ws_ins (drop (snd a) u) (drop (snd b) v))"

lemma scan_rel_Inr:
  "ws_ins (drop k u) (drop k' v) \<Longrightarrow> scan_rel u v (Inr (t, k)) (Inr (t, k'))"
  by (simp add: scan_rel_def)

lemma scan_sim: "ws_ins u v \<Longrightarrow> scan_rel u v (scan_text u) (scan_text v)"
proof (induction rule: ws_ins.induct)
  case (same s)
  show ?case
    by (cases "scan_text s") (auto simp: scan_rel_def intro: ws_ins.same)
next
  case (insert c s t)
  from insert.IH show ?case
    by (auto simp: scan_rel_def scan_text_space [OF is_white_IsSpace [OF insert.hyps(1)]]
        elim!: rel_sum.cases)
next
  case (keep x s t)
  from keep.hyps(1) show ?case
  proof (cases rule: lexeme.cases)
    case (punct c)
    then show ?thesis using keep.hyps(2)
      by (auto simp: scan_text_punct intro!: scan_rel_Inr)
  next
    case (space c)
    from keep.IH show ?thesis
      by (auto simp: space scan_rel_def scan_text_space elim!: rel_sum.cases)
  next
    case (string body)
    then have b: "\<forall>c\<in>set body. IsStringChar c" by (simp add: IsStringChar_def)
    show ?thesis
      using keep.hyps(2) by (auto simp: string scan_text_string [OF b] intro!: scan_rel_Inr)
  next
    case (number d rest)
    from ws_ins_head [OF keep.hyps(2) number(1)] obtain d' t' where
      t: "t = d' # t'" and d': "d' = d \<or> is_white d'" by blast
    have ne: "x \<noteq> []" and st: "IsDigit (hd x) \<or> hd x = CHR ''-''"
      and all: "\<forall>c\<in>set x. IsNumberChar c" and nd: "\<not> IsNumberChar d"
      using number by (simp_all add: IsNumberChar_def)
    have nd': "\<not> IsNumberChar d'" using d' nd is_white_not_run by auto
    have "scan_text (x @ s) = Inr (\<lparr>Type = TokenNumber, Value = x\<rparr>, length x)"
      unfolding number(1) by (rule scan_text_number [OF ne st all nd])
    moreover have "scan_text (x @ t) = Inr (\<lparr>Type = TokenNumber, Value = x\<rparr>, length x)"
      unfolding t by (rule scan_text_number [OF ne st all nd'])
    ultimately show ?thesis using keep.hyps(2) by (auto intro!: scan_rel_Inr)
  next
    case (word d rest)
    from ws_ins_head [OF keep.hyps(2) word(1)] obtain d' t' where
      t: "t = d' # t'" and d': "d' = d \<or> is_white d'" by blast
    have ne: "x \<noteq> []" and all: "\<forall>c\<in>set x. IsLetter c" and nd: "\<not> IsLetter d"
      using word by simp_all
    have nd': "\<not> IsLetter d'" using d' nd is_white_not_run by auto
    have "scan_text (x @ s) =
     (if x = ''true'' \<or> x = ''false'' then Inr (\<lparr>Type = TokenBoolean, Value = x\<rparr>, length x)
      else if x = ''null'' then Inr (\<lparr>Type = TokenNull, Value = x\<rparr>, length x)
      else Inl (Panic (''Unexpected keyword: '' @ x)))"
      unfolding word(1) by (rule scan_text_word [OF ne all nd])
    moreover have "scan_text (x @ t) =
     (if x = ''true'' \<or> x = ''false'' then Inr (\<lparr>Type = TokenBoolean, Value = x\<rparr>, length x)
      else if x = ''null'' then Inr (\<lparr>Type = TokenNull, Value = x\<rparr>, length x)
      else Inl (Panic (''Unexpected keyword: '' @ x)))"
      unfolding t by (rule scan_text_word [OF ne all nd'])
    ultimately show ?thesis using keep.hyps(2)
      by (simp add: scan_rel_def)
  qed
qed

text \<open>
  Two parsers, on \<open>s\<close> and on \<open>t\<close>, with the same lookahead token and with cursors whose
  remaining texts are related by \<open>ws_ins\<close>.
\<close>

definition ws_rel :: "string \<Rightarrow> string \<Rightarrow> Parser \<Rightarrow> Parser \<Rightarrow> bool" where
  "ws_rel s t p q =
     (token q = token p \<and>
      (\<exists>i j. lexer p = lexer_at s i \<and> lexer q = lexer_at t j \<and> ws_ins (drop i s) (drop j t)))"

lemma ws_rel_next:
  assumes "ws_rel s t p q"
  shows "rel_sum (=) (ws_rel s t) (Parser_nextToken p) (Parser_nextToken q)"
proof -
  from assms obtain i j where
    p: "lexer p = lexer_at s i" and q: "lexer q = lexer_at t j"
    and w: "ws_ins (drop i s) (drop j t)"
    by (auto simp: ws_rel_def)
  note sim = scan_sim [OF w, unfolded scan_rel_def]
  show ?thesis
  proof (cases "scan_text (drop i s)")
    case (Inl e)
    with sim have "scan_text (drop j t) = Inl e" by (cases "scan_text (drop j t)") auto
    with Inl show ?thesis
      by (simp add: Parser_nextToken_at [OF p] Parser_nextToken_at [OF q])
  next
    case (Inr a)
    with sim obtain b where b: "scan_text (drop j t) = Inr b" "fst b = fst a"
      "ws_ins (drop (snd a) (drop i s)) (drop (snd b) (drop j t))"
      by (cases "scan_text (drop j t)") auto
    obtain tk k where a: "a = (tk, k)" by (cases a)
    obtain tk' k' where b': "b = (tk', k')" by (cases b)
    have "ws_ins (drop (i + k) s) (drop (j + k') t)"
      using b(3) a b' by (simp add: add.commute)
    then show ?thesis
      using Inr b(1,2) a b'
      by (auto simp: Parser_nextToken_at [OF p] Parser_nextToken_at [OF q] ws_rel_def)
  qed
qed

lemma ws_rel_token: "ws_rel s t p q \<Longrightarrow> token q = token p"
  by (simp add: ws_rel_def)

lemma ws_ins_punct: "c \<in> set ''{}[]:,'' \<Longrightarrow> ws_ins s t \<Longrightarrow> ws_ins (c # s) (c # t)"
  using ws_ins.keep [OF lexeme.punct [of c s], of t] by simp

section \<open>The scanner, by the first character\<close>

text \<open>
  What \<open>scan_first\<close> gives for each class of first character, and when text appended to
  the input cannot change a token. A token of \<open>u\<close> is settled when the scanner stopped
  before the end of \<open>u\<close>, or at the end on a punctuation token or a closed string: then
  text after \<open>u\<close> does not change it. The other tokens are the ones that the end of \<open>u\<close>
  cut short.
\<close>

definition punct_type :: "TokenType \<Rightarrow> bool" where
  "punct_type t =
     (t = TokenLeftBrace \<or> t = TokenRightBrace \<or> t = TokenLeftBracket \<or>
      t = TokenRightBracket \<or> t = TokenColon \<or> t = TokenComma)"

definition settled :: "string \<Rightarrow> Token \<times> nat \<Rightarrow> bool" where
  "settled u r =
     (case r of (tk, k) \<Rightarrow>
        k < length u \<or> k = length u \<and> (punct_type (Type tk) \<or> Type tk = TokenString))"

lemma takeWhile_short_append:
  "length (takeWhile P xs) < length xs \<Longrightarrow> takeWhile P (xs @ ys) = takeWhile P xs"
proof (induction xs)
  case Nil
  then show ?case by simp
next
  case (Cons x xs)
  then show ?case by (cases "P x") simp_all
qed

lemma dropWhile_short_append:
  "length (takeWhile P xs) < length xs \<Longrightarrow> dropWhile P (xs @ ys) = dropWhile P xs @ ys"
proof (induction xs)
  case Nil
  then show ?case by simp
next
  case (Cons x xs)
  then show ?case by (cases "P x") simp_all
qed

lemma scan_first_punct:
  "c \<in> set ''{}[]:,'' \<Longrightarrow> scan_first (c # cs) = scan_first [c]"
  by (auto simp: scan_first_def)

lemma scan_first_punct_settled:
  "c \<in> set ''{}[]:,'' \<Longrightarrow> \<exists>tk. scan_first [c] = Inr (tk, 1)"
  by (auto simp: scan_first_def)

lemma scan_first_quote:
  "scan_first (CHR 0x22 # cs) =
     Inr (\<lparr>Type = TokenString, Value = concat (map WriteRune (takeWhile IsStringChar cs))\<rparr>,
          length (takeWhile IsStringChar cs) + 2)"
  by (simp add: scan_first_def Let_def)

lemma scan_first_number_run:
  assumes "IsDigit c \<or> c = CHR ''-''"
  shows "scan_first (c # cs) =
     Inr (\<lparr>Type = TokenNumber,
           Value = (if length (takeWhile IsNumberChar (c # cs)) < Suc (length cs)
                    then takeWhile IsNumberChar (c # cs)
                    else butlast (takeWhile IsNumberChar (c # cs)))\<rparr>,
          length (takeWhile IsNumberChar (c # cs)))"
  unfolding scan_first_def Let_def list.case
  using number_start_not_other [OF assms] assms by (simp del: takeWhile.simps)

lemma scan_first_letter_run:
  assumes "IsLetter c"
  shows "scan_first (c # cs) =
     (let run = takeWhile IsLetter (c # cs);
          v = (if length run < Suc (length cs) then run else butlast run)
      in if v = ''true'' \<or> v = ''false'' then Inr (\<lparr>Type = TokenBoolean, Value = v\<rparr>, length run)
         else if v = ''null'' then Inr (\<lparr>Type = TokenNull, Value = v\<rparr>, length run)
         else Inl (Panic (''Unexpected keyword: '' @ v)))"
  unfolding scan_first_def Let_def list.case
  using letter_not_other [OF assms] assms by (simp del: takeWhile.simps)

lemma scan_first_other:
  assumes "c \<notin> set ''{}[]:,''" "c \<noteq> CHR 0x22" "\<not> (IsDigit c \<or> c = CHR ''-'')" "\<not> IsLetter c"
  shows "scan_first (c # cs) = Inr (\<lparr>Type = TokenEOF, Value = ''''\<rparr>, 0)"
  using assms by (simp add: scan_first_def)

lemma scan_first_append:
  assumes sc: "scan_first s = Inr (tk, k)" and st: "settled s (tk, k)" and ne: "s \<noteq> []"
  shows "scan_first (s @ rest) = Inr (tk, k)"
proof -
  obtain c cs where s: "s = c # cs" using ne by (cases s) auto
  consider (p) "c \<in> set ''{}[]:,''" | (q) "c = CHR 0x22" | (n) "IsDigit c \<or> c = CHR ''-''"
    | (l) "IsLetter c"
    | (o) "c \<notin> set ''{}[]:,''" "c \<noteq> CHR 0x22" "\<not> (IsDigit c \<or> c = CHR ''-'')" "\<not> IsLetter c"
    by blast
  then show ?thesis
  proof cases
    case p
    show ?thesis
      using sc unfolding s append_Cons scan_first_punct [OF p, of cs]
        scan_first_punct [OF p, of "cs @ rest"] .
  next
    case q
    from sc st have "length (takeWhile IsStringChar cs) < length cs"
      by (auto simp: s q scan_first_quote settled_def punct_type_def)
    from takeWhile_short_append [OF this] sc show ?thesis
      by (simp add: s q scan_first_quote)
  next
    case n
    from sc st have len: "length (takeWhile IsNumberChar (c # cs)) < length (c # cs)"
      unfolding s scan_first_number_run [OF n]
      by (auto simp: settled_def punct_type_def simp del: takeWhile.simps)
    have tw: "takeWhile IsNumberChar (c # cs @ rest) = takeWhile IsNumberChar (c # cs)"
      using takeWhile_short_append [OF len, of rest] by simp
    have len': "length (takeWhile IsNumberChar (c # cs)) < Suc (length cs)"
      using len by simp
    have len'': "length (takeWhile IsNumberChar (c # cs)) < Suc (length (cs @ rest))"
      using len by simp
    show ?thesis
      using sc unfolding s append_Cons scan_first_number_run [OF n] tw
      by (simp only: len' len'' if_True)
  next
    case l
    have "Type tk = TokenBoolean \<or> Type tk = TokenNull"
      using sc unfolding s scan_first_letter_run [OF l] Let_def
      by (auto split: if_splits simp del: takeWhile.simps)
    moreover have "k = length (takeWhile IsLetter (c # cs))"
      using sc unfolding s scan_first_letter_run [OF l] Let_def
      by (auto split: if_splits simp del: takeWhile.simps)
    ultimately have len: "length (takeWhile IsLetter (c # cs)) < length (c # cs)"
      using st by (auto simp: settled_def punct_type_def s)
    have tw: "takeWhile IsLetter (c # cs @ rest) = takeWhile IsLetter (c # cs)"
      using takeWhile_short_append [OF len, of rest] by simp
    have len': "length (takeWhile IsLetter (c # cs)) < Suc (length cs)"
      using len by simp
    have len'': "length (takeWhile IsLetter (c # cs)) < Suc (length (cs @ rest))"
      using len by simp
    show ?thesis
      using sc unfolding s append_Cons scan_first_letter_run [OF l] tw Let_def
      by (simp only: len' len'' if_True)
  next
    case o
    show ?thesis
      using sc unfolding s append_Cons scan_first_other [OF o] .
  qed
qed

lemma scan_first_punct_len:
  assumes "scan_first s = Inr (tk, k)" "punct_type (Type tk)"
  shows "k \<le> length s"
proof (cases s)
  case Nil
  with assms show ?thesis by (simp add: scan_first_def punct_type_def)
next
  case (Cons c cs)
  consider (p) "c \<in> set ''{}[]:,''" | (q) "c = CHR 0x22" | (n) "IsDigit c \<or> c = CHR ''-''"
    | (l) "IsLetter c"
    | (o) "c \<notin> set ''{}[]:,''" "c \<noteq> CHR 0x22" "\<not> (IsDigit c \<or> c = CHR ''-'')" "\<not> IsLetter c"
    by blast
  then show ?thesis
  proof cases
    case p
    with scan_first_punct_settled [OF p] assms(1) show ?thesis
      by (auto simp: Cons scan_first_punct [OF p, of cs])
  next
    case q
    with assms show ?thesis by (auto simp: Cons scan_first_quote punct_type_def)
  next
    case n
    from assms show ?thesis
      unfolding Cons scan_first_number_run [OF n]
      by (auto simp: punct_type_def simp del: takeWhile.simps)
  next
    case l
    from assms show ?thesis
      unfolding Cons scan_first_letter_run [OF l] Let_def
      by (auto simp: punct_type_def split: if_splits simp del: takeWhile.simps)
  next
    case o
    from assms show ?thesis
      unfolding Cons scan_first_other [OF o] by (auto simp: punct_type_def)
  qed
qed

lemma scan_text_Inr:
  assumes "scan_text s = Inr (tk, k)"
  obtains k' where "scan_first (dropWhile IsSpace s) = Inr (tk, k')"
    "k = length (takeWhile IsSpace s) + k'"
  using assms
  by (cases "scan_first (dropWhile IsSpace s)") (auto simp: scan_text_def Let_def)

lemma length_takeWhile_dropWhile:
  "length s = length (takeWhile P s) + length (dropWhile P s)"
  by (metis length_append takeWhile_dropWhile_id)

lemma scan_text_punct_len:
  assumes "scan_text s = Inr (tk, k)" "punct_type (Type tk)"
  shows "k \<le> length s"
proof -
  from assms(1) obtain k' where k': "scan_first (dropWhile IsSpace s) = Inr (tk, k')"
    "k = length (takeWhile IsSpace s) + k'"
    by (rule scan_text_Inr)
  from scan_first_punct_len [OF k'(1) assms(2)] k'(2)
    length_takeWhile_dropWhile [of s IsSpace]
  show ?thesis by simp
qed

lemma scan_text_append:
  assumes sc: "scan_text s = Inr (tk, k)" and st: "settled s (tk, k)"
  shows "scan_text (s @ rest) = Inr (tk, k)"
proof -
  from sc obtain k' where k': "scan_first (dropWhile IsSpace s) = Inr (tk, k')"
    "k = length (takeWhile IsSpace s) + k'"
    by (rule scan_text_Inr)
  note len = length_takeWhile_dropWhile [of s IsSpace]
  have ne: "dropWhile IsSpace s \<noteq> []"
  proof
    assume e: "dropWhile IsSpace s = []"
    with k'(1) have "Type tk = TokenEOF" "k' = 0" by (auto simp: scan_first_def)
    with st k'(2) len e show False by (simp add: settled_def punct_type_def)
  qed
  then have short: "length (takeWhile IsSpace s) < length s" using len by simp
  have st': "settled (dropWhile IsSpace s) (tk, k')"
    using st k'(2) len by (auto simp: settled_def)
  from scan_first_append [OF k'(1) st' ne]
  show ?thesis
    unfolding scan_text_def Let_def takeWhile_short_append [OF short]
      dropWhile_short_append [OF short]
    by (simp add: k'(2))
qed

lemma scan_text_Nil: "scan_text [] = Inr (\<lparr>Type = TokenEOF, Value = ''''\<rparr>, 0)"
  by (simp add: scan_text_def scan_first_def)

section \<open>The first token of the input\<close>

text \<open>
  What the first character after the leading white space says about the first token: a
  character other than \<^verbatim>\<open>{\<close> and \<^verbatim>\<open>[\<close> never starts the token \<^verbatim>\<open>{\<close> or \<^verbatim>\<open>[\<close>, and only a
  letter starts a token whose reading panics.
\<close>

lemma scan_first_not_opener:
  assumes "case s of [] \<Rightarrow> True | c # cs \<Rightarrow> c \<noteq> CHR ''{'' \<and> c \<noteq> CHR ''[''"
    and "scan_first s = Inr (tk, k)"
  shows "Type tk \<noteq> TokenLeftBrace \<and> Type tk \<noteq> TokenLeftBracket"
proof (cases s)
  case Nil
  with assms(2) show ?thesis by (auto simp: scan_first_def)
next
  case (Cons c cs)
  with assms(1) have c: "c \<noteq> CHR ''{''" "c \<noteq> CHR ''[''" by simp_all
  consider (p) "c \<in> set ''}]:,''" | (q) "c = CHR 0x22" | (n) "IsDigit c \<or> c = CHR ''-''"
    | (l) "IsLetter c"
    | (o) "c \<notin> set ''{}[]:,''" "c \<noteq> CHR 0x22" "\<not> (IsDigit c \<or> c = CHR ''-'')" "\<not> IsLetter c"
    using c by auto
  then show ?thesis
  proof cases
    case p
    with assms(2) show ?thesis by (auto simp: Cons scan_first_def)
  next
    case q
    with assms(2) show ?thesis by (auto simp: Cons scan_first_quote)
  next
    case n
    from assms(2) show ?thesis
      unfolding Cons scan_first_number_run [OF n] by (auto simp del: takeWhile.simps)
  next
    case l
    from assms(2) show ?thesis
      unfolding Cons scan_first_letter_run [OF l] Let_def
      by (auto split: if_splits simp del: takeWhile.simps)
  next
    case o
    from assms(2) show ?thesis
      unfolding Cons scan_first_other [OF o] by auto
  qed
qed

lemma scan_first_panic_letter:
  assumes "scan_first s = Inl e"
  shows "\<exists>c cs w. s = c # cs \<and> IsLetter c \<and> e = Panic (''Unexpected keyword: '' @ w)"
proof (cases s)
  case Nil
  with assms show ?thesis by (simp add: scan_first_def)
next
  case (Cons c cs)
  show ?thesis
  proof (cases "IsLetter c")
    case True
    from assms show ?thesis
      unfolding Cons scan_first_letter_run [OF True] Let_def
      using True by (auto split: if_splits simp del: takeWhile.simps)
  next
    case False
    with assms show ?thesis
      by (auto simp: Cons scan_first_def Let_def split: if_splits)
  qed
qed

lemma NewParser_scan:
  "NewParser (NewLexer inp) =
     map_sum id (\<lambda>(t, k). \<lparr>lexer = lexer_at inp k, token = t\<rparr>) (scan_text inp)"
  by (cases "scan_text inp")
     (auto simp: NewParser_def NewLexer_at Parser_nextToken_at [of _ inp 0])

section \<open>Text appended to the input\<close>

text \<open>
  The parser on \<open>d\<close> is spent when its lexer is at the end of \<open>d\<close> and its lookahead is
  not a punctuation token: from there on it reads only end-of-input tokens, and no loop
  that starts in such a state returns.
\<close>

definition spent :: "string \<Rightarrow> Parser \<Rightarrow> bool" where
  "spent d p = (lexer p = lexer_at d (length d) \<and> \<not> punct_type (Type (token p)))"

lemma spent_next:
  assumes "spent d p" and "Parser_nextToken p = Inr p'"
  shows "Type (token p') = TokenEOF"
proof -
  from assms(1) have l: "lexer p = lexer_at d (length d)" by (simp add: spent_def)
  from assms(2) show ?thesis
    by (simp add: Parser_nextToken_at [OF l] scan_text_Nil) auto
qed

lemma spent_not_punct:
  "spent d p \<Longrightarrow> Type (token p) \<noteq> TokenLeftBrace \<and> Type (token p) \<noteq> TokenRightBrace
     \<and> Type (token p) \<noteq> TokenLeftBracket \<and> Type (token p) \<noteq> TokenRightBracket
     \<and> Type (token p) \<noteq> TokenColon \<and> Type (token p) \<noteq> TokenComma"
  by (auto simp: spent_def punct_type_def)

lemma spent_parseValue:
  assumes "spent d p" and "parseValue p = Inr (x, y)"
  shows "Type (token y) = TokenEOF"
proof -
  note np = spent_not_punct [OF assms(1)]
  from assms(2) np have "Parser_nextToken p = Inr y"
    by (subst (asm) parseValue.simps)
       (auto split: TokenType.splits sum.splits simp: Let_def)
  from spent_next [OF assms(1) this] show ?thesis .
qed

lemma spent_parseObject_loop:
  assumes "spent d p"
  shows "parseObject_loop obj p \<noteq> Inr (v, q)"
proof
  assume "parseObject_loop obj p = Inr (v, q)"
  then show False
  proof (cases rule: parseObject_loop_Inr_cases)
    case close
    with spent_not_punct [OF assms] show ?thesis by simp
  next
    case (comma b ba x y bc)
    with spent_next [OF assms comma(2)] show ?thesis by simp
  next
    case (last b ba x y)
    with spent_next [OF assms last(2)] show ?thesis by simp
  qed
qed

lemma spent_parseArray_loop:
  assumes "spent d p"
  shows "parseArray_loop arr p \<noteq> Inr (v, q)"
proof
  assume "parseArray_loop arr p = Inr (v, q)"
  then show False
  proof (cases rule: parseArray_loop_Inr_cases)
    case close
    with spent_not_punct [OF assms] show ?thesis by simp
  next
    case (comma x y bc)
    with spent_parseValue [OF assms comma(2)] show ?thesis by simp
  next
    case (last x y)
    with spent_parseValue [OF assms last(2)] show ?thesis by simp
  qed
qed

text \<open>
  A run of the parser on \<open>d\<close> that returns, and the run from the same offset on a text
  \<open>d @ rest\<close>. \<open>ext t j p\<close> is the state of \<open>p\<close> with its lexer at offset \<open>j\<close> of the text
  \<open>t\<close>, and \<open>next_out t i\<close> is what \<open>Parser_nextToken\<close> gives at offset \<open>i\<close> of \<open>t\<close>.
  Every method ends by reading one token: \<open>final d i q\<close> says that the state \<open>q\<close> it
  returns on \<open>d\<close> comes from reading that token at offset \<open>i\<close>, and \<open>outcome t i v\<close> is the
  value \<open>v\<close> with what reading a token at offset \<open>i\<close> of \<open>t\<close> gives: the next state, or the
  panic. \<open>closed d i\<close>: the character of \<open>d\<close> before offset \<open>i\<close> is a closing brace or
  bracket.
\<close>

definition ext :: "string \<Rightarrow> nat \<Rightarrow> Parser \<Rightarrow> Parser" where
  "ext t j p = \<lparr>lexer = lexer_at t j, token = token p\<rparr>"

definition next_out :: "string \<Rightarrow> nat \<Rightarrow> panic + Parser" where
  "next_out t i =
     map_sum id (\<lambda>(tk, k). \<lparr>lexer = lexer_at t (i + k), token = tk\<rparr>) (scan_text (drop i t))"

definition final :: "string \<Rightarrow> nat \<Rightarrow> Parser \<Rightarrow> bool" where
  "final d i q = (i \<le> length d \<and> next_out d i = Inr q)"

definition outcome :: "string \<Rightarrow> nat \<Rightarrow> value \<Rightarrow> panic + value \<times> Parser" where
  "outcome t i v = map_sum id (Pair v) (next_out t i)"

definition closed :: "string \<Rightarrow> nat \<Rightarrow> bool" where
  "closed d i = (0 < i \<and> i \<le> length d \<and> (d ! (i - 1) = CHR ''}'' \<or> d ! (i - 1) = CHR '']''))"

definition closer_at :: "string \<Rightarrow> nat \<Rightarrow> Token \<Rightarrow> bool" where
  "closer_at d j t =
     (if Type t = TokenRightBrace \<or> Type t = TokenRightBracket then closed d j else True)"

lemma ext_simps [simp]:
  "token (ext t j p) = token p" "lexer (ext t j p) = lexer_at t j"
  by (simp_all add: ext_def)

lemma Parser_nextToken_out:
  "lexer p = lexer_at t i \<Longrightarrow> Parser_nextToken p = next_out t i"
  by (cases "scan_text (drop i t)") (auto simp: Parser_nextToken_at next_out_def)

lemma outcome_next:
  "(case next_out t i of Inl e \<Rightarrow> Inl e | Inr r \<Rightarrow> Inr (v, r)) = outcome t i v"
  by (cases "next_out t i") (simp_all add: outcome_def)

lemma scan_first_closer:
  assumes "scan_first s = Inr (tk, k)"
    and "Type tk = TokenRightBrace \<or> Type tk = TokenRightBracket"
  shows "k = 1 \<and> (\<exists>cs. s = CHR ''}'' # cs \<or> s = CHR '']'' # cs)"
proof (cases s)
  case Nil
  with assms show ?thesis by (auto simp: scan_first_def)
next
  case (Cons c cs)
  consider (p) "c \<in> set ''{}[]:,''" | (q) "c = CHR 0x22" | (n) "IsDigit c \<or> c = CHR ''-''"
    | (l) "IsLetter c"
    | (o) "c \<notin> set ''{}[]:,''" "c \<noteq> CHR 0x22" "\<not> (IsDigit c \<or> c = CHR ''-'')" "\<not> IsLetter c"
    by blast
  then show ?thesis
  proof cases
    case p
    with assms show ?thesis by (auto simp: Cons scan_first_def)
  next
    case q
    with assms show ?thesis by (auto simp: Cons scan_first_quote)
  next
    case n
    from assms show ?thesis
      unfolding Cons scan_first_number_run [OF n] by (auto simp del: takeWhile.simps)
  next
    case l
    from assms show ?thesis
      unfolding Cons scan_first_letter_run [OF l] Let_def
      by (auto split: if_splits simp del: takeWhile.simps)
  next
    case o
    from assms show ?thesis
      unfolding Cons scan_first_other [OF o] by auto
  qed
qed

lemma scan_text_closer:
  assumes "scan_text s = Inr (tk, k)"
    and "Type tk = TokenRightBrace \<or> Type tk = TokenRightBracket"
  shows "0 < k \<and> k \<le> length s \<and> (s ! (k - 1) = CHR ''}'' \<or> s ! (k - 1) = CHR '']'')"
proof -
  from assms(1) obtain k' where k': "scan_first (dropWhile IsSpace s) = Inr (tk, k')"
    "k = length (takeWhile IsSpace s) + k'"
    by (rule scan_text_Inr)
  from scan_first_closer [OF k'(1) assms(2)] obtain cs where
    one: "k' = 1" and cs: "dropWhile IsSpace s = CHR ''}'' # cs \<or> dropWhile IsSpace s = CHR '']'' # cs"
    by blast
  have s: "s = takeWhile IsSpace s @ dropWhile IsSpace s" by simp
  have "s ! length (takeWhile IsSpace s) = hd (dropWhile IsSpace s)"
    using cs by (subst s) (auto simp: nth_append simp del: takeWhile_dropWhile_id)
  moreover have "length (dropWhile IsSpace s) = Suc (length cs)" using cs by auto
  then have "length (takeWhile IsSpace s) < length s"
    using length_takeWhile_dropWhile [of s IsSpace] by linarith
  ultimately show ?thesis using cs one k'(2) by auto
qed

lemma next_out_cases [consumes 2, case_names settled spent]:
  assumes "i \<le> length d" and "next_out d i = Inr q"
  obtains (settled) j where "j \<le> length d" "lexer q = lexer_at d j" "closer_at d j (token q)"
      "\<And>rest. next_out (d @ rest) i = Inr (ext (d @ rest) j q)"
  | (spent) "spent d q"
proof -
  from assms(2) obtain tk k where sc: "scan_text (drop i d) = Inr (tk, k)"
    and q: "q = \<lparr>lexer = lexer_at d (i + k), token = tk\<rparr>"
    by (cases "scan_text (drop i d)") (auto simp: next_out_def)
  have dr: "drop i (d @ rest) = drop i d @ rest" for rest using assms(1) by simp
  show ?thesis
  proof (cases "settled (drop i d) (tk, k)")
    case True
    then have le: "i + k \<le> length d" using assms(1) by (auto simp: settled_def)
    have "next_out (d @ rest) i = Inr (ext (d @ rest) (i + k) q)" for rest
      unfolding next_out_def dr scan_text_append [OF sc True, of rest]
      by (simp add: ext_def q)
    moreover have "closer_at d (i + k) (token q)"
    proof (cases "Type tk = TokenRightBrace \<or> Type tk = TokenRightBracket")
      case False
      then show ?thesis by (simp add: closer_at_def q)
    next
      case c: True
      from scan_text_closer [OF sc c] assms(1) le show ?thesis
        by (auto simp: closer_at_def q closed_def c)
    qed
    ultimately show ?thesis using le by (intro settled [of "i + k"]) (simp_all add: q)
  next
    case False
    have np: "\<not> punct_type (Type tk)"
    proof
      assume "punct_type (Type tk)"
      with scan_text_punct_len [OF sc this] False show False by (auto simp: settled_def)
    qed
    have "length d \<le> i + k" using False by (auto simp: settled_def)
    from lexer_at_end [OF this] np have "spent d q" by (simp add: spent_def q)
    then show ?thesis by (rule spent)
  qed
qed

lemma step_cases [consumes 3, case_names settled spent]:
  assumes "lexer p = lexer_at d j" and "j \<le> length d" and "Parser_nextToken p = Inr p'"
  obtains (settled) j' where "j' \<le> length d" "lexer p' = lexer_at d j'"
      "closer_at d j' (token p')"
      "\<And>rest. Parser_nextToken (ext (d @ rest) j p) = Inr (ext (d @ rest) j' p')"
  | (spent) "spent d p'"
proof -
  have n: "next_out d j = Inr p'"
    using assms(3) by (simp add: Parser_nextToken_out [OF assms(1)])
  have r: "Parser_nextToken (ext (d @ rest) j p) = next_out (d @ rest) j" for rest
    by (rule Parser_nextToken_out) simp
  from assms(2) n show ?thesis
    by (cases rule: next_out_cases) (auto intro: settled spent simp: r)
qed

lemma last_step:
  assumes "lexer p = lexer_at d j" and "j \<le> length d" and "Parser_nextToken p = Inr q"
  shows "final d j q"
    and "(case Parser_nextToken (ext (d @ rest) j p) of Inl e \<Rightarrow> Inl e | Inr r \<Rightarrow> Inr (v, r))
           = outcome (d @ rest) j v"
proof -
  show "final d j q"
    using assms by (simp add: final_def Parser_nextToken_out [OF assms(1)])
  have "Parser_nextToken (ext (d @ rest) j p) = next_out (d @ rest) j"
    by (rule Parser_nextToken_out) simp
  then show "(case Parser_nextToken (ext (d @ rest) j p) of Inl e \<Rightarrow> Inl e | Inr r \<Rightarrow> Inr (v, r))
           = outcome (d @ rest) j v"
    by (simp add: outcome_next)
qed

lemma final_cases [consumes 1, case_names settled spent]:
  assumes "final d i y"
  obtains (settled) j where "j \<le> length d" "lexer y = lexer_at d j" "closer_at d j (token y)"
      "\<And>rest x. outcome (d @ rest) i x = Inr (x, ext (d @ rest) j y)"
  | (spent) "spent d y"
proof -
  from assms have i: "i \<le> length d" and n: "next_out d i = Inr y" by (simp_all add: final_def)
  from i n show ?thesis
    by (cases rule: next_out_cases) (auto intro: settled spent simp: outcome_def)
qed

lemma closer_at_closed:
  "closer_at d j t \<Longrightarrow> Type t = TokenRightBrace \<or> Type t = TokenRightBracket \<Longrightarrow> closed d j"
  by (simp add: closer_at_def)

lemma parse_ext:
  shows "lexer p1 = lexer_at d j1 \<Longrightarrow> j1 \<le> length d \<Longrightarrow> parseObject p1 = Inr (v1, q1) \<Longrightarrow>
           \<exists>i. final d i q1 \<and> closed d i \<and>
               (\<forall>rest. parseObject (ext (d @ rest) j1 p1) = outcome (d @ rest) i v1)"
    and "lexer p2 = lexer_at d j2 \<Longrightarrow> j2 \<le> length d \<Longrightarrow> closer_at d j2 (token p2) \<Longrightarrow>
         parseObject_loop obj p2 = Inr (v2, q2) \<Longrightarrow>
           \<exists>i. final d i q2 \<and> closed d i \<and>
               (\<forall>rest. parseObject_loop obj (ext (d @ rest) j2 p2) = outcome (d @ rest) i v2)"
    and "lexer p3 = lexer_at d j3 \<Longrightarrow> j3 \<le> length d \<Longrightarrow> parseArray p3 = Inr (v3, q3) \<Longrightarrow>
           \<exists>i. final d i q3 \<and> closed d i \<and>
               (\<forall>rest. parseArray (ext (d @ rest) j3 p3) = outcome (d @ rest) i v3)"
    and "lexer p4 = lexer_at d j4 \<Longrightarrow> j4 \<le> length d \<Longrightarrow> closer_at d j4 (token p4) \<Longrightarrow>
         parseArray_loop arr p4 = Inr (v4, q4) \<Longrightarrow>
           \<exists>i. final d i q4 \<and> closed d i \<and>
               (\<forall>rest. parseArray_loop arr (ext (d @ rest) j4 p4) = outcome (d @ rest) i v4)"
    and "lexer p5 = lexer_at d j5 \<Longrightarrow> j5 \<le> length d \<Longrightarrow> parseValue p5 = Inr (v5, q5) \<Longrightarrow>
           \<exists>i. final d i q5 \<and>
               (\<forall>rest. parseValue (ext (d @ rest) j5 p5) = outcome (d @ rest) i v5)"
proof (induction p1 and obj p2 and p3 and arr p4 and p5
    arbitrary: j1 v1 q1 and j2 v2 q2 and j3 v3 q3 and j4 v4 q4 and j5 v5 q5
    rule: parseObject_parseObject_loop_parseArray_parseArray_loop_parseValue.induct)
  case (1 p)
  from "1.prems"(3) obtain b where b: "Parser_nextToken p = Inr b"
    and lp: "parseObject_loop [] b = Inr (v1, q1)"
    by (auto simp: parseObject.simps [of p] split: sum.splits)
  from "1.prems"(1,2) b show ?case
  proof (cases rule: step_cases)
    case (settled jb)
    from "1.IH" [OF b settled(2) settled(1) settled(3) lp] obtain i where
      i: "final d i q1" "closed d i"
      "\<And>rest. parseObject_loop [] (ext (d @ rest) jb b) = outcome (d @ rest) i v1"
      by blast
    have "parseObject (ext (d @ rest) j1 p) = outcome (d @ rest) i v1" for rest
      by (simp add: parseObject.simps [of "ext (d @ rest) j1 p"] settled(4) i(3))
    with i(1,2) show ?thesis by blast
  next
    case spent
    with spent_parseObject_loop [OF spent] lp show ?thesis by simp
  qed
next
  case (2 obj p)
  from "2.prems"(4) show ?case
  proof (cases rule: parseObject_loop_Inr_cases)
    case close
    note ls = last_step [OF "2.prems"(1,2) close(2)]
    have "parseObject_loop obj (ext (d @ rest) j2 p) = outcome (d @ rest) j2 v2" for rest
      using ls(2) [where rest = rest and v = "VObject obj"] close(1) unfolding close(3)
      by (simp add: parseObject_loop.simps [of obj "ext (d @ rest) j2 p"])
    moreover have "closed d j2"
      using closer_at_closed [OF "2.prems"(3)] close(1) by simp
    ultimately show ?thesis using ls(1) by blast
  next
    case (comma b ba x y bc)
    have nrb: "Type (token p) \<noteq> TokenRightBrace" using comma(1) by simp
    have ns: "\<not> Type (token p) \<noteq> TokenString" using comma(1) by simp
    have nc: "\<not> Type (token b) \<noteq> TokenColon" using comma(3) by simp
    from "2.prems"(1,2) comma(2) show ?thesis
    proof (cases rule: step_cases)
      case b': (settled jb)
      from b'(2,1) comma(4) show ?thesis
      proof (cases rule: step_cases)
        case ba': (settled jba)
        from "2.IH"(1) [OF nrb ns refl comma(2) nc comma(4) ba'(2) ba'(1) comma(5)]
        obtain i1 where i1: "final d i1 y"
          "\<And>rest. parseValue (ext (d @ rest) jba ba) = outcome (d @ rest) i1 x"
          by blast
        from i1(1) show ?thesis
        proof (cases rule: final_cases)
          case y': (settled jy)
          from y'(2,1) comma(7) show ?thesis
          proof (cases rule: step_cases)
            case bc': (settled jbc)
            from "2.IH"(2) [OF nrb ns refl comma(2) nc comma(4) comma(5) refl refl
                comma(6) comma(7) bc'(2) bc'(1) bc'(3) comma(8)]
            obtain i where i: "final d i q2" "closed d i"
              "\<And>rest. parseObject_loop (AList.update (Value (token p)) x obj)
                 (ext (d @ rest) jbc bc) = outcome (d @ rest) i v2"
              by blast
            have "parseObject_loop obj (ext (d @ rest) j2 p) = outcome (d @ rest) i v2" for rest
              using comma(1,3,6)
              by (simp add: parseObject_loop.simps [of obj "ext (d @ rest) j2 p"] Let_def
                  b'(4) ba'(4) i1(2) y'(4) bc'(4) i(3))
            with i(1,2) show ?thesis by blast
          next
            case spent
            with spent_parseObject_loop [OF spent] comma(8) show ?thesis by simp
          qed
        next
          case spent
          with spent_not_punct [OF spent] comma(6) show ?thesis by simp
        qed
      next
        case spent
        with spent_parseValue [OF spent comma(5)] comma(6) show ?thesis by simp
      qed
    next
      case spent
      with spent_not_punct [OF spent] comma(3) show ?thesis by simp
    qed
  next
    case (last b ba x y)
    have nrb: "Type (token p) \<noteq> TokenRightBrace" using last(1) by simp
    have ns: "\<not> Type (token p) \<noteq> TokenString" using last(1) by simp
    have nc: "\<not> Type (token b) \<noteq> TokenColon" using last(3) by simp
    have ncomma: "Type (token y) \<noteq> TokenComma" using last(6) by simp
    have nrby: "\<not> Type (token y) \<noteq> TokenRightBrace" using last(6) by simp
    from "2.prems"(1,2) last(2) show ?thesis
    proof (cases rule: step_cases)
      case b': (settled jb)
      from b'(2,1) last(4) show ?thesis
      proof (cases rule: step_cases)
        case ba': (settled jba)
        from "2.IH"(1) [OF nrb ns refl last(2) nc last(4) ba'(2) ba'(1) last(5)]
        obtain i1 where i1: "final d i1 y"
          "\<And>rest. parseValue (ext (d @ rest) jba ba) = outcome (d @ rest) i1 x"
          by blast
        from i1(1) show ?thesis
        proof (cases rule: final_cases)
          case y': (settled jy)
          from "2.IH"(3) [OF nrb ns refl last(2) nc last(4) last(5) refl refl
              ncomma nrby y'(2) y'(1) y'(3) last(7)]
          obtain i where i: "final d i q2" "closed d i"
            "\<And>rest. parseObject_loop (AList.update (Value (token p)) x obj)
               (ext (d @ rest) jy y) = outcome (d @ rest) i v2"
            by blast
          have "parseObject_loop obj (ext (d @ rest) j2 p) = outcome (d @ rest) i v2" for rest
            using last(1,3,6)
            by (simp add: parseObject_loop.simps [of obj "ext (d @ rest) j2 p"] Let_def
                b'(4) ba'(4) i1(2) y'(4) i(3))
          with i(1,2) show ?thesis by blast
        next
          case spent
          with spent_not_punct [OF spent] last(6) show ?thesis by simp
        qed
      next
        case spent
        with spent_parseValue [OF spent last(5)] last(6) show ?thesis by simp
      qed
    next
      case spent
      with spent_not_punct [OF spent] last(3) show ?thesis by simp
    qed
  qed
next
  case (3 p)
  from "3.prems"(3) obtain b where b: "Parser_nextToken p = Inr b"
    and lp: "parseArray_loop [] b = Inr (v3, q3)"
    by (auto simp: parseArray.simps [of p] split: sum.splits)
  from "3.prems"(1,2) b show ?case
  proof (cases rule: step_cases)
    case (settled jb)
    from "3.IH" [OF b settled(2) settled(1) settled(3) lp] obtain i where
      i: "final d i q3" "closed d i"
      "\<And>rest. parseArray_loop [] (ext (d @ rest) jb b) = outcome (d @ rest) i v3"
      by blast
    have "parseArray (ext (d @ rest) j3 p) = outcome (d @ rest) i v3" for rest
      by (simp add: parseArray.simps [of "ext (d @ rest) j3 p"] settled(4) i(3))
    with i(1,2) show ?thesis by blast
  next
    case spent
    with spent_parseArray_loop [OF spent] lp show ?thesis by simp
  qed
next
  case (4 arr p)
  from "4.prems"(4) show ?case
  proof (cases rule: parseArray_loop_Inr_cases)
    case close
    note ls = last_step [OF "4.prems"(1,2) close(2)]
    have "parseArray_loop arr (ext (d @ rest) j4 p) = outcome (d @ rest) j4 v4" for rest
      using ls(2) [where rest = rest and v = "VArray arr"] close(1) unfolding close(3)
      by (simp add: parseArray_loop.simps [of arr "ext (d @ rest) j4 p"])
    moreover have "closed d j4"
      using closer_at_closed [OF "4.prems"(3)] close(1) by simp
    ultimately show ?thesis using ls(1) by blast
  next
    case (comma x y bc)
    from "4.IH"(1) [OF comma(1) "4.prems"(1,2) comma(2)]
    obtain i1 where i1: "final d i1 y"
      "\<And>rest. parseValue (ext (d @ rest) j4 p) = outcome (d @ rest) i1 x"
      by blast
    from i1(1) show ?thesis
    proof (cases rule: final_cases)
      case y': (settled jy)
      from y'(2,1) comma(4) show ?thesis
      proof (cases rule: step_cases)
        case bc': (settled jbc)
        from "4.IH"(2) [OF comma(1) comma(2) refl refl comma(3) comma(4)
            bc'(2) bc'(1) bc'(3) comma(5)]
        obtain i where i: "final d i q4" "closed d i"
          "\<And>rest. parseArray_loop (arr @ [x]) (ext (d @ rest) jbc bc) = outcome (d @ rest) i v4"
          by blast
        have "parseArray_loop arr (ext (d @ rest) j4 p) = outcome (d @ rest) i v4" for rest
          using comma(1,3)
          by (simp add: parseArray_loop.simps [of arr "ext (d @ rest) j4 p"] Let_def
              i1(2) y'(4) bc'(4) i(3))
        with i(1,2) show ?thesis by blast
      next
        case spent
        with spent_parseArray_loop [OF spent] comma(5) show ?thesis by simp
      qed
    next
      case spent
      with spent_not_punct [OF spent] comma(3) show ?thesis by simp
    qed
  next
    case (last x y)
    have ncomma: "Type (token y) \<noteq> TokenComma" using last(3) by simp
    have nrby: "\<not> Type (token y) \<noteq> TokenRightBracket" using last(3) by simp
    from "4.IH"(1) [OF last(1) "4.prems"(1,2) last(2)]
    obtain i1 where i1: "final d i1 y"
      "\<And>rest. parseValue (ext (d @ rest) j4 p) = outcome (d @ rest) i1 x"
      by blast
    from i1(1) show ?thesis
    proof (cases rule: final_cases)
      case y': (settled jy)
      from "4.IH"(3) [OF last(1) last(2) refl refl ncomma nrby y'(2) y'(1) y'(3) last(4)]
      obtain i where i: "final d i q4" "closed d i"
        "\<And>rest. parseArray_loop (arr @ [x]) (ext (d @ rest) jy y) = outcome (d @ rest) i v4"
        by blast
      have "parseArray_loop arr (ext (d @ rest) j4 p) = outcome (d @ rest) i v4" for rest
        using last(1,3)
        by (simp add: parseArray_loop.simps [of arr "ext (d @ rest) j4 p"] Let_def
            i1(2) y'(4) i(3))
      with i(1,2) show ?thesis by blast
    next
      case spent
      with spent_not_punct [OF spent] last(3) show ?thesis by simp
    qed
  qed
next
  case (5 p)
  show ?case
  proof (cases "Type (token p)")
    case TokenString
    with "5.prems"(3) have n: "Parser_nextToken p = Inr q5" and v: "v5 = VString (Value (token p))"
      by (auto simp: parseValue.simps [of p] Let_def split: sum.splits)
    note ls = last_step [OF "5.prems"(1,2) n]
    have "parseValue (ext (d @ rest) j5 p) = outcome (d @ rest) j5 v5" for rest
      using ls(2) [where rest = rest and v = "VString (Value (token p))"] TokenString unfolding v
      by (simp add: parseValue.simps [of "ext (d @ rest) j5 p"] Let_def)
    with ls(1) show ?thesis by blast
  next
    case TokenNumber
    with "5.prems"(3) have n: "Parser_nextToken p = Inr q5"
      and v: "v5 = VNumber (fst (ParseFloat (Value (token p))))"
      by (auto simp: parseValue.simps [of p] Let_def split: sum.splits)
    note ls = last_step [OF "5.prems"(1,2) n]
    have "parseValue (ext (d @ rest) j5 p) = outcome (d @ rest) j5 v5" for rest
      using ls(2) [where rest = rest and v = "VNumber (fst (ParseFloat (Value (token p))))"] TokenNumber unfolding v
      by (simp add: parseValue.simps [of "ext (d @ rest) j5 p"] Let_def)
    with ls(1) show ?thesis by blast
  next
    case TokenBoolean
    with "5.prems"(3) have n: "Parser_nextToken p = Inr q5"
      and v: "v5 = VBoolean (Value (token p) = ''true'')"
      by (auto simp: parseValue.simps [of p] Let_def split: sum.splits)
    note ls = last_step [OF "5.prems"(1,2) n]
    have "parseValue (ext (d @ rest) j5 p) = outcome (d @ rest) j5 v5" for rest
      using ls(2) [where rest = rest and v = "VBoolean (Value (token p) = ''true'')"] TokenBoolean unfolding v
      by (simp add: parseValue.simps [of "ext (d @ rest) j5 p"] Let_def)
    with ls(1) show ?thesis by blast
  next
    case TokenNull
    with "5.prems"(3) have n: "Parser_nextToken p = Inr q5" and v: "v5 = VNull"
      by (auto simp: parseValue.simps [of p] Let_def split: sum.splits)
    note ls = last_step [OF "5.prems"(1,2) n]
    have "parseValue (ext (d @ rest) j5 p) = outcome (d @ rest) j5 v5" for rest
      using ls(2) [where rest = rest and v = "VNull"] TokenNull unfolding v
      by (simp add: parseValue.simps [of "ext (d @ rest) j5 p"] Let_def)
    with ls(1) show ?thesis by blast
  next
    case TokenLeftBrace
    with "5.prems"(3) have "parseObject p = Inr (v5, q5)"
      by (simp add: parseValue.simps [of p])
    from "5.IH"(1) [OF TokenLeftBrace "5.prems"(1,2) this] obtain i where
      i: "final d i q5" "\<And>rest. parseObject (ext (d @ rest) j5 p) = outcome (d @ rest) i v5"
      by blast
    have "parseValue (ext (d @ rest) j5 p) = outcome (d @ rest) i v5" for rest
      using TokenLeftBrace by (simp add: parseValue.simps [of "ext (d @ rest) j5 p"] i(2))
    with i(1) show ?thesis by blast
  next
    case TokenLeftBracket
    with "5.prems"(3) have "parseArray p = Inr (v5, q5)"
      by (simp add: parseValue.simps [of p])
    from "5.IH"(2) [OF TokenLeftBracket "5.prems"(1,2) this] obtain i where
      i: "final d i q5" "\<And>rest. parseArray (ext (d @ rest) j5 p) = outcome (d @ rest) i v5"
      by blast
    have "parseValue (ext (d @ rest) j5 p) = outcome (d @ rest) i v5" for rest
      using TokenLeftBracket by (simp add: parseValue.simps [of "ext (d @ rest) j5 p"] i(2))
    with i(1) show ?thesis by blast
  qed (use "5.prems"(3) in \<open>simp_all add: parseValue.simps [of p]\<close>)
qed

text \<open>
  The token after the document, from the text: \<open>next_word t\<close> is the run of letters at
  the start of \<open>t\<close>, after the white space that the lexer skips, and \<open>word_ends t\<close> says
  that a further character follows the run. With no such run, reading a token from \<open>t\<close>
  does not panic; a run that a further character follows is read as it stands, and panics
  unless it is a keyword.
\<close>

definition next_word :: "string \<Rightarrow> string" where
  "next_word t = takeWhile IsLetter (dropWhile IsSpace t)"

definition word_ends :: "string \<Rightarrow> bool" where
  "word_ends t = (length (next_word t) < length (dropWhile IsSpace t))"

lemma scan_text_no_word:
  assumes "next_word t = []"
  shows "\<exists>r. scan_text t = Inr r"
proof (cases "scan_first (dropWhile IsSpace t)")
  case (Inl e)
  from scan_first_panic_letter [OF Inl] assms show ?thesis
    by (auto simp: next_word_def)
next
  case (Inr r)
  then show ?thesis by (cases r) (simp add: scan_text_def)
qed

lemma scan_text_word_ends:
  assumes "next_word t \<noteq> []" and "word_ends t"
  shows "if next_word t \<in> {''true'', ''false'', ''null''} then \<exists>r. scan_text t = Inr r
         else scan_text t = Inl (Panic (''Unexpected keyword: '' @ next_word t))"
proof -
  from assms(1) obtain c cs where s: "dropWhile IsSpace t = c # cs" and c: "IsLetter c"
    by (cases "dropWhile IsSpace t") (auto simp: next_word_def split: if_splits)
  have len: "length (takeWhile IsLetter (c # cs)) < Suc (length cs)"
    using assms(2) by (simp add: word_ends_def next_word_def s)
  have run: "next_word t = takeWhile IsLetter (c # cs)" by (simp add: next_word_def s)
  have "scan_first (c # cs) =
      (if next_word t = ''true'' \<or> next_word t = ''false''
       then Inr (\<lparr>Type = TokenBoolean, Value = next_word t\<rparr>, length (next_word t))
       else if next_word t = ''null''
       then Inr (\<lparr>Type = TokenNull, Value = next_word t\<rparr>, length (next_word t))
       else Inl (Panic (''Unexpected keyword: '' @ next_word t)))"
    unfolding scan_first_letter_run [OF c] Let_def run
    by (simp only: len if_True)
  then show ?thesis
    by (auto simp: scan_text_def s)
qed

lemma main_parse_appended:
  assumes "main_parse d = Inr v"
  shows "\<exists>i. closed d i \<and>
           (\<forall>rest. main_parse (d @ rest) =
              (case scan_text (drop i d @ rest) of Inl e \<Rightarrow> Inl e | Inr r \<Rightarrow> Inr v))"
proof -
  let ?zero = "\<lparr>Type = TokenString, Value = ''''\<rparr>"
  let ?p0 = "\<lparr>lexer = NewLexer d, token = ?zero\<rparr>"
  have l0: "lexer ?p0 = lexer_at d 0" by (simp add: NewLexer_at)
  have r0: "NewParser (NewLexer (d @ rest)) = Parser_nextToken (ext (d @ rest) 0 ?p0)" for rest
    by (simp add: NewParser_def NewLexer_at ext_def)
  from assms obtain p q where p: "Parser_nextToken ?p0 = Inr p"
    and pj: "parseJSON p = Inr (v, q)"
    by (auto simp: main_parse_def NewParser_def split: sum.splits)
  have out: "(case outcome t i v of Inl e \<Rightarrow> Inl e | Inr (parsedData, _) \<Rightarrow> Inr parsedData)
      = (case scan_text (drop i t) of Inl e \<Rightarrow> Inl e | Inr r \<Rightarrow> Inr v)" for t i
    by (cases "scan_text (drop i t)") (auto simp: outcome_def next_out_def)
  have z: "0 \<le> length d" by simp
  from l0 z p show ?thesis
  proof (cases rule: step_cases)
    case (settled j')
    have "\<exists>i. closed d i \<and> (\<forall>rest. parseJSON (ext (d @ rest) j' p) = outcome (d @ rest) i v)"
    proof (cases "Type (token p)")
      case TokenLeftBrace
      with pj have "parseObject p = Inr (v, q)" by (simp add: parseJSON_def)
      from parse_ext(1) [OF settled(2,1) this] TokenLeftBrace show ?thesis
        by (auto simp: parseJSON_def)
    next
      case TokenLeftBracket
      with pj have "parseArray p = Inr (v, q)" by (simp add: parseJSON_def)
      from parse_ext(3) [OF settled(2,1) this] TokenLeftBracket show ?thesis
        by (auto simp: parseJSON_def)
    qed (use pj in \<open>simp_all add: parseJSON_def\<close>)
    then obtain i where i: "closed d i"
      "\<And>rest. parseJSON (ext (d @ rest) j' p) = outcome (d @ rest) i v"
      by blast
    have le: "i \<le> length d" using i(1) by (simp add: closed_def)
    have "main_parse (d @ rest) =
        (case scan_text (drop i d @ rest) of Inl e \<Rightarrow> Inl e | Inr r \<Rightarrow> Inr v)" for rest
      using out [of "d @ rest" i] le
      by (simp add: main_parse_def r0 settled(4) i(2))
    with i(1) show ?thesis by blast
  next
    case spent
    from spent_not_punct [OF spent] pj show ?thesis
      by (auto simp: parseJSON_def split: TokenType.splits)
  qed
qed

section \<open>The claims\<close>

text \<open>
  C1: for every malformed input, parsing fails by returning a structured error value that
  carries a kind, a message and the byte offset of the failure, and never ends the host
  process. The program has no error value: every failure is a call of \<^verbatim>\<open>panic\<close> with a
  message string, which nothing recovers, so it ends the process. The bare number \<^verbatim>\<open>42\<close> is
  such an input.
\<close>

theorem C1_panic_counterexample:
  "main_parse ''42'' = Inl (Panic ''Invalid JSON start'')"
  by code_simp

text \<open>
  C1, as the code has it: on every input with at most \<open>nesting_limit\<close> opening braces and
  brackets, the program either returns an object or an array, or panics through one of
  the seven \<^verbatim>\<open>panic\<close> calls of the source, whose only payload is the message. No slice
  expression of the lexer goes out of range. Inputs that nest deeper are left out:
  there the process may end with the stack overflow of the runtime.
\<close>

theorem C1_panic_with_message_only:
  assumes "openers inp \<le> nesting_limit"
  shows "case main_parse inp of
     Inl e \<Rightarrow> source_panic e
   | Inr v \<Rightarrow> (\<exists>m. v = VObject m) \<or> (\<exists>a. v = VArray a)"
proof -
  let ?p0 = "\<lparr>lexer = NewLexer inp, token = \<lparr>Type = TokenString, Value = ''''\<rparr>\<rparr>"
  have "on_input inp ?p0" by (auto simp: on_input_def NewLexer_at)
  from Parser_nextToken_on_input [OF this]
  have rel: "rel_sum (\<lambda>e e'. e' = e \<and> source_panic e) (\<lambda>p q. q = p \<and> on_input inp p)
      (NewParser (NewLexer inp)) (NewParser (NewLexer inp))"
    by (simp add: NewParser_def)
  show ?thesis
  proof (cases "NewParser (NewLexer inp)")
    case (Inl e)
    with rel have "source_panic e" by simp
    with Inl show ?thesis by (simp add: main_parse_def)
  next
    case (Inr p)
    with rel have "on_input inp p" by simp
    from parseJSON_on_input [OF this] Inr show ?thesis
      by (auto simp: main_parse_def split: sum.splits)
  qed
qed

text \<open>
  An array that is not closed has one opening bracket and ends in one of the seven
  panics; an array in an array is returned.
\<close>

theorem C1_panic_witness:
  "main_parse ''[1'' = Inl (Panic ''Expected ',' or ']' in array'')
   \<and> source_panic (Panic ''Expected ',' or ']' in array'')
   \<and> main_parse ''[[1]]'' = Inr (VArray [VArray [VNumber (Float64 False 1)]])"
proof -
  have h: "openers ''[1'' \<le> nesting_limit"
    by (simp add: openers_def nesting_limit_def)
  have v: "main_parse ''[1'' = Inl (Panic ''Expected ',' or ']' in array'')"
    "main_parse ''[[1]]'' = Inr (VArray [VArray [VNumber (Float64 False 1)]])"
    by code_simp+
  from C1_panic_with_message_only [OF h] v show ?thesis by simp
qed

text \<open>
  C2: an input with a comma right before the closing brace or bracket is never accepted.
  The code accepts it. After a comma the loops of \<^verbatim>\<open>parseObject\<close> and \<^verbatim>\<open>parseArray\<close> read
  the next token and test the loop condition again, so a closer after the comma ends the
  loop as it does after a value. The grammar in the repository's README,
  \<^verbatim>\<open>PairList \<rightarrow> Pair ("," Pair)*\<close> and \<^verbatim>\<open>ValueList \<rightarrow> Value ("," Value)*\<close>, has no such
  sentence, and a comma before another comma is refused.
\<close>

theorem C2_trailing_comma_accepted:
  \<open>main_parse ''[1,]'' = Inr (VArray [VNumber (Float64 False 1)])
   \<and> main_parse ''{"a":1,}'' = Inr (VObject [(''a'', VNumber (Float64 False 1))])
   \<and> main_parse ''[1,,2]'' = Inl (Panic ''Unexpected token: ,'')\<close>
  by code_simp

text \<open>
  C3: the payload of a string token is the decoded text, each escape sequence replaced by
  the character it denotes. \<^verbatim>\<open>readString\<close> has no case for the backslash: it copies every
  character up to the next quote. The two characters backslash and \<^verbatim>\<open>n\<close> stay two
  characters in the value, and a quote after a backslash ends the literal.
\<close>

theorem C3_escape_counterexample:
  \<open>main_parse (''{"s":"line1'' @ [CHR 0x5C] @ ''nline2"}'') =
     Inr (VObject [(''s'', VString (''line1'' @ [CHR 0x5C, CHR ''n''] @ ''line2''))])
   \<and> main_parse (''{"s":"line1'' @ [CHR 0x5C] @ ''nline2"}'') \<noteq>
     Inr (VObject [(''s'', VString (''line1'' @ [CHR 0x0A] @ ''line2''))])
   \<and> main_parse (''["a'' @ [CHR 0x5C] @ ''"b"]'') = Inl (Panic ''Unexpected keyword: b'')\<close>
  by code_simp

lemma WriteRune_ascii:
  "\<forall>c\<in>set body. (of_char c :: nat) < 128 \<Longrightarrow> concat (map WriteRune body) = body"
  by (induction body) (simp_all add: WriteRune_def)

text \<open>
  C3, as the code has it: no escape is decoded. When the cursor is at a quote, and the
  text \<open>body\<close> up to the next quote consists of bytes below 128 other than the 0 byte,
  the token is a string token whose payload is \<open>body\<close>, the text exactly as it stands in
  the source, backslashes included. The cursor is then past the closing quote.
\<close>

theorem C3_string_payload_is_source_text:
  assumes "\<forall>c\<in>set body. c \<noteq> CHR 0x22 \<and> c \<noteq> CHR 0x00 \<and> (of_char c :: nat) < 128"
  shows "Lexer_nextToken (lexer_at (pre @ CHR 0x22 # body @ CHR 0x22 # rest) (length pre)) =
           Inr (\<lparr>Type = TokenString, Value = body\<rparr>,
                lexer_at (pre @ CHR 0x22 # body @ CHR 0x22 # rest) (length pre + length body + 2))"
proof -
  have "\<forall>c\<in>set body. IsStringChar c" using assms by (simp add: IsStringChar_def)
  from scan_text_string [OF this]
  have "Lexer_nextToken (lexer_at (pre @ CHR 0x22 # body @ CHR 0x22 # rest) (length pre)) =
           Inr (\<lparr>Type = TokenString, Value = concat (map WriteRune body)\<rparr>,
                lexer_at (pre @ CHR 0x22 # body @ CHR 0x22 # rest) (length pre + length body + 2))"
    by (simp add: Lexer_nextToken_at add.assoc)
  moreover have "concat (map WriteRune body) = body"
    using assms by (intro WriteRune_ascii) simp
  ultimately show ?thesis by simp
qed

text \<open>The literal of the counterexample, at offset 5 of its document.\<close>

theorem C3_string_payload_witness:
  \<open>Lexer_nextToken (lexer_at (''{"s":"line1'' @ [CHR 0x5C] @ ''nline2"}'') 5) =
     Inr (\<lparr>Type = TokenString, Value = ''line1'' @ [CHR 0x5C] @ ''nline2''\<rparr>,
          lexer_at (''{"s":"line1'' @ [CHR 0x5C] @ ''nline2"}'') 19)\<close>
  using C3_string_payload_is_source_text
    [of "''line1'' @ [CHR 0x5C] @ ''nline2''" \<open>''{"s":''\<close> "''}''"]
  by (simp add: eval_nat_numeral)

text \<open>
  C4: when the input ends inside a string literal, lexing fails; the lexer never returns
  the unterminated text as a string token. The loop of \<^verbatim>\<open>readString\<close> also stops when
  \<open>current\<close> is 0, which is what \<open>advance\<close> sets at the end of the input, and the token
  is returned as after a closing quote.
\<close>

theorem C4_unterminated_counterexample:
  \<open>Lexer_nextToken (NewLexer ''"abc'') =
     Inr (\<lparr>Type = TokenString, Value = ''abc''\<rparr>,
          \<lparr>input = ''"abc'', pos = 4, current = CHR 0x00\<rparr>)\<close>
  by code_simp

text \<open>
  C4, as the code has it: when the cursor is at a quote and the rest of the input,
  \<open>body\<close>, has no other quote and consists of bytes below 128 other than the 0 byte, the
  lexer returns a string token whose payload is \<open>body\<close>, and is then at the end of the
  input. The lexer reports no error.
\<close>

theorem C4_unterminated_string_is_a_token:
  assumes "\<forall>c\<in>set body. c \<noteq> CHR 0x22 \<and> c \<noteq> CHR 0x00 \<and> (of_char c :: nat) < 128"
  shows "Lexer_nextToken (lexer_at (pre @ CHR 0x22 # body) (length pre)) =
           Inr (\<lparr>Type = TokenString, Value = body\<rparr>,
                lexer_at (pre @ CHR 0x22 # body) (length (pre @ CHR 0x22 # body)))"
proof -
  have "\<forall>c\<in>set body. IsStringChar c" using assms by (simp add: IsStringChar_def)
  moreover have "lexer_at (pre @ CHR 0x22 # body) (length pre + (length body + 2)) =
      lexer_at (pre @ CHR 0x22 # body) (length (pre @ CHR 0x22 # body))"
    by (rule lexer_at_end) simp
  moreover have "concat (map WriteRune body) = body"
    using assms by (intro WriteRune_ascii) simp
  ultimately show ?thesis
    by (simp add: Lexer_nextToken_at scan_text_string_eoi del: length_append)
qed

text \<open>An array that ends inside its first element.\<close>

theorem C4_unterminated_string_witness:
  \<open>Lexer_nextToken (lexer_at ''["abc'' 1) =
     Inr (\<lparr>Type = TokenString, Value = ''abc''\<rparr>, lexer_at ''["abc'' 5)\<close>
  using C4_unterminated_string_is_a_token [of "''abc''" "''[''"]
  by (simp add: eval_nat_numeral)




text \<open>
  C6: an input whose first significant token is not \<^verbatim>\<open>{\<close> or \<^verbatim>\<open>[\<close> is never parsed with
  success, and fails with a parse error. The white space that the lexer skips is what
  \<^verbatim>\<open>unicode.IsSpace\<close> accepts, which is more than space, tab, line feed and carriage return:
  also the vertical tab, the form feed and the bytes 0x85 and 0xA0. An input that starts
  with one of these has a first significant character that is not \<^verbatim>\<open>{\<close> or \<^verbatim>\<open>[\<close>, and is
  parsed with success.
\<close>

theorem C6_white_space_counterexample:
  "main_parse (CHR 0x0B # ''[1]'') = Inr (VArray [VNumber (Float64 False 1)])
   \<and> main_parse (CHR 0xA0 # ''{}'') = Inr (VObject [])"
  by code_simp

text \<open>
  C6, as the code has it: when the first character of the input after the white space
  that \<^verbatim>\<open>unicode.IsSpace\<close> accepts is not \<^verbatim>\<open>{\<close> or \<^verbatim>\<open>[\<close>, or when there is no such character,
  the program never returns a value: it panics with \<^verbatim>\<open>Invalid JSON start\<close>, or, when that
  character is a letter, possibly with the lexer's \<^verbatim>\<open>Unexpected keyword\<close>. The failure is a
  panic: the program has no other form of error.
\<close>

theorem C6_top_level_must_be_container:
  assumes "case dropWhile IsSpace inp of
             [] \<Rightarrow> True
           | c # cs \<Rightarrow> c \<noteq> CHR ''{'' \<and> c \<noteq> CHR ''[''"
  shows "main_parse inp = Inl (Panic ''Invalid JSON start'')
       \<or> (\<exists>c cs w. dropWhile IsSpace inp = c # cs \<and> IsLetter c \<and>
            main_parse inp = Inl (Panic (''Unexpected keyword: '' @ w)))"
proof (cases "scan_first (dropWhile IsSpace inp)")
  case (Inl e)
  then have "main_parse inp = Inl e"
    by (simp add: main_parse_def NewParser_scan scan_text_def)
  with scan_first_panic_letter [OF Inl] show ?thesis by auto
next
  case (Inr r)
  obtain tk k where r: "r = (tk, k)" by (cases r)
  from scan_first_not_opener [OF assms Inr [unfolded r]]
  have "parseJSON \<lparr>lexer = l, token = tk\<rparr> = Inl (Panic ''Invalid JSON start'')" for l
    by (cases "Type tk") (simp_all add: parseJSON_def)
  then have "main_parse inp = Inl (Panic ''Invalid JSON start'')"
    using Inr r by (simp add: main_parse_def NewParser_scan scan_text_def)
  then show ?thesis by simp
qed

text \<open>
  The bare string \<^verbatim>\<open>"abc"\<close> after a space, the bare number 42, and an object after a
  letter.
\<close>

theorem C6_top_level_witness:
  \<open>main_parse '' "abc"'' = Inl (Panic ''Invalid JSON start'')
   \<and> main_parse ''42'' = Inl (Panic ''Invalid JSON start'')
   \<and> main_parse ''x{}'' = Inl (Panic ''Unexpected keyword: x'')\<close>
proof -
  have h: \<open>case dropWhile IsSpace '' "abc"'' of
             [] \<Rightarrow> True
           | c # cs \<Rightarrow> c \<noteq> CHR ''{'' \<and> c \<noteq> CHR ''[''\<close>
    by (simp add: IsSpace_def)
  have n: \<open>\<not> IsLetter (CHR 0x22)\<close> by (simp add: IsLetter_def)
  have d: \<open>dropWhile IsSpace '' "abc"'' = ''"abc"''\<close> by (simp add: IsSpace_def)
  have c: \<open>main_parse ''42'' = Inl (Panic ''Invalid JSON start'')\<close>
    \<open>main_parse ''x{}'' = Inl (Panic ''Unexpected keyword: x'')\<close>
    by code_simp+
  from C6_top_level_must_be_container [OF h] n d c show ?thesis by auto
qed

text \<open>
  C7: a number literal outside the grammar of numbers (a leading zero before a digit, a
  minus sign or a decimal point with no digit after it, an exponent marker with no digit)
  is a lexical error. \<^verbatim>\<open>readNumber\<close> tests nothing: \<^verbatim>\<open>01\<close>, \<^verbatim>\<open>-\<close> and \<^verbatim>\<open>1.\<close> are number
  tokens, and the documents that hold them parse.
\<close>

theorem C7_number_grammar_counterexample:
  \<open>map_sum id fst (Lexer_nextToken (NewLexer ''01]'')) = Inr \<lparr>Type = TokenNumber, Value = ''01''\<rparr>
   \<and> map_sum id fst (Lexer_nextToken (NewLexer ''-]'')) = Inr \<lparr>Type = TokenNumber, Value = ''-''\<rparr>
   \<and> map_sum id fst (Lexer_nextToken (NewLexer ''1.]'')) = Inr \<lparr>Type = TokenNumber, Value = ''1.''\<rparr>
   \<and> main_parse ''[01]'' = Inr (VArray [VNumber (Float64 False 1)])
   \<and> main_parse ''[-]'' = Inr (VArray [VNumber (Float64 False 0)])
   \<and> main_parse ''[1.]'' = Inr (VArray [VNumber (Float64 False 1)])\<close>
  by code_simp

text \<open>
  C7, as the code has it: when the cursor is at a digit or a minus sign, the token is a
  number token that holds the whole run of digits, decimal points and minus signs up to
  the next other character, whatever the run is. (A run that reaches the end of the
  input is left out here.)
\<close>

theorem C7_number_run_is_a_token:
  assumes "run \<noteq> []" and "IsDigit (hd run) \<or> hd run = CHR ''-''"
    and "\<forall>c\<in>set run. IsDigit c \<or> c = CHR ''.'' \<or> c = CHR ''-''"
    and "\<not> (IsDigit d \<or> d = CHR ''.'' \<or> d = CHR ''-'')"
  shows "Lexer_nextToken (lexer_at (pre @ run @ d # rest) (length pre)) =
           Inr (\<lparr>Type = TokenNumber, Value = run\<rparr>,
                lexer_at (pre @ run @ d # rest) (length pre + length run))"
proof -
  have "\<forall>c\<in>set run. IsNumberChar c" "\<not> IsNumberChar d"
    using assms(3,4) by (simp_all add: IsNumberChar_def)
  from scan_text_number [OF assms(1,2) this] show ?thesis
    by (simp add: Lexer_nextToken_at)
qed

text \<open>The run \<^verbatim>\<open>-0.1.-\<close>, which no grammar of numbers accepts.\<close>

theorem C7_number_run_witness:
  \<open>Lexer_nextToken (lexer_at ''[-0.1.-,2]'' 1) =
     Inr (\<lparr>Type = TokenNumber, Value = ''-0.1.-''\<rparr>, lexer_at ''[-0.1.-,2]'' 7)\<close>
  using C7_number_run_is_a_token [of "''-0.1.-''" "CHR '',''" "''[''" "''2]''"]
  by (simp add: IsDigit_def eval_nat_numeral)

text \<open>
  C8: when characters other than white space remain after the top-level value closes,
  parsing fails. The code does not look at what remains: \<^verbatim>\<open>parseJSON\<close> returns the value
  as soon as \<^verbatim>\<open>parseObject\<close> or \<^verbatim>\<open>parseArray\<close> returns, and nothing compares the lookahead
  token with the end-of-input token.
\<close>

theorem C8_trailing_content_counterexample:
  \<open>main_parse ''{}{}'' = Inr (VObject [])
   \<and> main_parse ''[] 42'' = Inr (VArray [])
   \<and> main_parse ''{"a":[1]} ]]'' = Inr (VObject [(''a'', VArray [VNumber (Float64 False 1)])])\<close>
  by code_simp

text \<open>
  C8, as the code has it: the text after the document is not checked. An input \<open>d\<close>
  that parses to the value \<open>v\<close> consists of a document \<open>doc\<close>, which ends with the closing
  brace or bracket, and a tail. After \<open>doc\<close> the parser reads one more token and returns.
  So with any text \<open>rest\<close> after \<open>d\<close>: when the text after the document, past the white
  space that the lexer skips, is empty or starts with a character that is not a letter,
  the outcome is \<open>v\<close>; when it starts with a run of letters that a further character
  follows, the outcome is \<open>v\<close> if the run is a keyword, and else the panic of
  \<^verbatim>\<open>readKeyword\<close> on that run. (A run of letters that reaches the end of the input is left
  out.) No outcome reports trailing content.
\<close>

theorem C8_trailing_content_not_checked:
  assumes "main_parse d = Inr v"
  shows "\<exists>doc tail. d = doc @ tail \<and> doc \<noteq> [] \<and> (last doc = CHR ''}'' \<or> last doc = CHR '']'') \<and>
     (\<forall>rest.
        (next_word (tail @ rest) = [] \<longrightarrow> main_parse (d @ rest) = Inr v) \<and>
        (next_word (tail @ rest) \<noteq> [] \<and> word_ends (tail @ rest) \<longrightarrow>
           main_parse (d @ rest) =
             (if next_word (tail @ rest) \<in> {''true'', ''false'', ''null''} then Inr v
              else Inl (Panic (''Unexpected keyword: '' @ next_word (tail @ rest))))))"
proof -
  from main_parse_appended [OF assms] obtain i where i: "closed d i"
    and m: "\<And>rest. main_parse (d @ rest) =
              (case scan_text (drop i d @ rest) of Inl e \<Rightarrow> Inl e | Inr r \<Rightarrow> Inr v)"
    by blast
  from i have le: "i \<le> length d" and pos: "i \<noteq> 0"
    and c: "d ! (i - 1) = CHR ''}'' \<or> d ! (i - 1) = CHR '']''"
    by (simp_all add: closed_def)
  have 1: "d = take i d @ drop i d" by simp
  have 2: "take i d \<noteq> []" using le pos by (cases d) auto
  have 3: "last (take i d) = CHR ''}'' \<or> last (take i d) = CHR '']''"
    using c le pos by (simp add: last_conv_nth [OF 2] min_def)
  have 4: "next_word (drop i d @ rest) = [] \<longrightarrow> main_parse (d @ rest) = Inr v" for rest
  proof
    assume "next_word (drop i d @ rest) = []"
    from scan_text_no_word [OF this] show "main_parse (d @ rest) = Inr v"
      by (auto simp: m)
  qed
  have 5: "next_word (drop i d @ rest) \<noteq> [] \<and> word_ends (drop i d @ rest) \<longrightarrow>
           main_parse (d @ rest) =
             (if next_word (drop i d @ rest) \<in> {''true'', ''false'', ''null''} then Inr v
              else Inl (Panic (''Unexpected keyword: '' @ next_word (drop i d @ rest))))" for rest
  proof
    assume a: "next_word (drop i d @ rest) \<noteq> [] \<and> word_ends (drop i d @ rest)"
    from scan_text_word_ends [of "drop i d @ rest"] a
    show "main_parse (d @ rest) =
             (if next_word (drop i d @ rest) \<in> {''true'', ''false'', ''null''} then Inr v
              else Inl (Panic (''Unexpected keyword: '' @ next_word (drop i d @ rest))))"
      by (auto simp: m split: if_splits)
  qed
  from 1 2 3 4 5 show ?thesis by blast
qed

text \<open>
  The empty array, alone and followed by a number, by a keyword and a bracket, and by two
  words: the outcomes that the theorem gives.
\<close>

theorem C8_trailing_content_witness:
  "main_parse ''[]'' = Inr (VArray [])
   \<and> main_parse (''[]'' @ '' 42'') = Inr (VArray [])
   \<and> main_parse (''[]'' @ ''true ]'') = Inr (VArray [])
   \<and> main_parse (''[]'' @ '' x y'') = Inl (Panic ''Unexpected keyword: x'')"
proof -
  have h: "main_parse ''[]'' = Inr (VArray [])" by code_simp
  from C8_trailing_content_not_checked [OF h] obtain doc tail where
    s: "''[]'' = doc @ tail" "doc \<noteq> []" "last doc = CHR ''}'' \<or> last doc = CHR '']''"
    and r: "\<forall>rest.
        (next_word (tail @ rest) = [] \<longrightarrow> main_parse (''[]'' @ rest) = Inr (VArray [])) \<and>
        (next_word (tail @ rest) \<noteq> [] \<and> word_ends (tail @ rest) \<longrightarrow>
           main_parse (''[]'' @ rest) =
             (if next_word (tail @ rest) \<in> {''true'', ''false'', ''null''} then Inr (VArray [])
              else Inl (Panic (''Unexpected keyword: '' @ next_word (tail @ rest)))))"
    by blast
  from s have t: "tail = []"
    by (cases doc) (auto simp: Cons_eq_append_conv)
  have w: "next_word '' 42'' = []" "next_word ''true ]'' = ''true''" "word_ends ''true ]''"
    "next_word '' x y'' = ''x''" "word_ends '' x y''"
    by code_simp+
  from r [rule_format, of "'' 42''"] r [rule_format, of "''true ]''"]
    r [rule_format, of "'' x y''"] h w
  show ?thesis by (simp add: t)
qed

text \<open>
  C9: inserting runs of space, tab, line feed or carriage return between the tokens of a
  valid document, outside string literals, does not change the tree that parsing yields.
  The lexer ends a string literal at the first quote, escaped or not. In the array below,
  of the two strings \<^verbatim>\<open>x",\<close> (its quote escaped in the source) and \<^verbatim>\<open>]\<close>, one space after
  the comma that separates the elements lands inside what the lexer reads as a string, and
  the second element of the result changes from a comma to a comma and a space.
\<close>

theorem C9_escaped_quote_counterexample:
  \<open>main_parse (''["x'' @ [CHR 0x5C] @ ''",","]"]'') =
     Inr (VArray [VString (''x'' @ [CHR 0x5C]), VString '',''])
   \<and> main_parse (''["x'' @ [CHR 0x5C] @ ''",", "]"]'') =
     Inr (VArray [VString (''x'' @ [CHR 0x5C]), VString '', ''])
   \<and> main_parse (''["x'' @ [CHR 0x5C] @ ''",", "]"]'') \<noteq>
     main_parse (''["x'' @ [CHR 0x5C] @ ''",","]"]'')\<close>
  by code_simp

text \<open>
  C9, as the code has it: white space between tokens does not change the outcome when no
  string literal has a quote between its quotes. For every input \<open>s\<close>, valid or not, and
  every \<open>t\<close> obtained from it by inserting spaces, tabs, line feeds and carriage returns
  before its lexemes or after the last one (\<open>ws_ins s t\<close>, with string literals that end
  at their first quote), the program's outcome on \<open>t\<close> is its outcome on \<open>s\<close>: the same
  tree, or the same panic.
\<close>

theorem C9_white_space_between_tokens:
  assumes "ws_ins s t"
  shows "main_parse t = main_parse s"
proof -
  let ?R = "ws_rel s t"
  let ?zero = "\<lparr>Type = TokenString, Value = ''''\<rparr>"
  have "lexer_at s 0 = lexer_at s 0 \<and> lexer_at t 0 = lexer_at t 0 \<and>
      ws_ins (drop 0 s) (drop 0 t)" using assms by simp
  then have "\<exists>i j. lexer_at s 0 = lexer_at s i \<and> lexer_at t 0 = lexer_at t j \<and>
      ws_ins (drop i s) (drop j t)" by (intro exI)
  then have "?R \<lparr>lexer = NewLexer s, token = ?zero\<rparr> \<lparr>lexer = NewLexer t, token = ?zero\<rparr>"
    by (simp add: ws_rel_def NewLexer_at)
  from ws_rel_next [OF this]
  have start: "rel_sum (=) ?R (NewParser (NewLexer s)) (NewParser (NewLexer t))"
    by (simp add: NewParser_def)
  show ?thesis
  proof (cases "NewParser (NewLexer s)")
    case (Inl e)
    with start have "NewParser (NewLexer t) = Inl e"
      by (cases "NewParser (NewLexer t)") auto
    with Inl show ?thesis by (simp add: main_parse_def)
  next
    case (Inr p)
    with start obtain q where q: "NewParser (NewLexer t) = Inr q" and r: "?R p q"
      by (cases "NewParser (NewLexer t)") auto
    note tk = ws_rel_token [OF r]
    have obj: "rel_sum (=) (rel_prod (=) ?R) (parseObject p) (parseObject q)"
      by (rule parse_rel(1) [where R = ?R and Q = "(=)", OF ws_rel_token ws_rel_next _ _ _ _ _ r])
         simp_all
    have arr: "rel_sum (=) (rel_prod (=) ?R) (parseArray p) (parseArray q)"
      by (rule parse_rel(3) [where R = ?R and Q = "(=)", OF ws_rel_token ws_rel_next _ _ _ _ _ r])
         simp_all
    have "rel_sum (=) (rel_prod (=) ?R) (parseJSON p) (parseJSON q)"
      using obj arr tk by (cases "Type (token p)") (simp_all add: parseJSON_def)
    then have "map_sum id fst (parseJSON q) = map_sum id fst (parseJSON p)"
      by (auto elim!: rel_sum.cases)
    moreover have "main_parse u = (case NewParser (NewLexer u) of Inl e \<Rightarrow> Inl e
        | Inr x \<Rightarrow> map_sum id fst (parseJSON x))" for u
      by (auto simp: main_parse_def split: sum.splits)
    ultimately show ?thesis using Inr q by simp
  qed
qed

text \<open>White space of all four kinds inserted in \<^verbatim>\<open>{"a":[1,true]}\<close>, and after it.\<close>

theorem C9_white_space_witness:
  \<open>main_parse (''{ "a" :'' @ [CHR 0x09] @ ''[1 ,'' @ [CHR 0x0A] @ ''true]'' @ [CHR 0x0D] @ ''} '')
     = main_parse ''{"a":[1,true]}''
   \<and> main_parse ''{"a":[1,true]}'' =
       Inr (VObject [(''a'', VArray [VNumber (Float64 False 1), VBoolean True])])\<close>
proof -
  have w: "is_white (CHR '' '')" "is_white (CHR 0x09)" "is_white (CHR 0x0A)" "is_white (CHR 0x0D)"
    by (simp_all add: is_white_def)
  have e0: "ws_ins [] '' ''"
    by (rule ws_ins.insert [OF w(1) ws_ins.same])
  have e1: "ws_ins ''}'' ''} ''"
    using ws_ins_punct [OF _ e0, of "CHR ''}''"] by simp
  have e2: "ws_ins ''}'' (CHR 0x0D # ''} '')"
    by (rule ws_ins.insert [OF w(4) e1])
  have e3: "ws_ins '']}'' (CHR '']'' # CHR 0x0D # ''} '')"
    using ws_ins_punct [OF _ e2, of "CHR '']''"] by simp
  have l4: "lexeme ''true'' '']}''"
    by (rule lexeme.word) (simp_all add: IsLetter_def)
  have e4: "ws_ins ''true]}'' (''true]'' @ CHR 0x0D # ''} '')"
    using ws_ins.keep [OF l4 e3] by simp
  have e5: "ws_ins ''true]}'' (CHR 0x0A # ''true]'' @ CHR 0x0D # ''} '')"
    by (rule ws_ins.insert [OF w(3) e4])
  have e6: "ws_ins '',true]}'' (CHR '','' # CHR 0x0A # ''true]'' @ CHR 0x0D # ''} '')"
    using ws_ins_punct [OF _ e5, of "CHR '',''"] by simp
  have e7: "ws_ins '',true]}'' ('' ,'' @ CHR 0x0A # ''true]'' @ CHR 0x0D # ''} '')"
    using ws_ins.insert [OF w(1) e6] by simp
  have l8: "lexeme ''1'' '',true]}''"
    by (rule lexeme.number) (simp_all add: IsDigit_def)
  have e8: "ws_ins ''1,true]}'' (''1 ,'' @ CHR 0x0A # ''true]'' @ CHR 0x0D # ''} '')"
    using ws_ins.keep [OF l8 e7] by simp
  have e9: "ws_ins ''[1,true]}'' (''[1 ,'' @ CHR 0x0A # ''true]'' @ CHR 0x0D # ''} '')"
    using ws_ins_punct [OF _ e8, of "CHR ''[''"] by simp
  have e10: "ws_ins ''[1,true]}'' (CHR 0x09 # ''[1 ,'' @ CHR 0x0A # ''true]'' @ CHR 0x0D # ''} '')"
    by (rule ws_ins.insert [OF w(2) e9])
  have e11: "ws_ins '':[1,true]}'' (CHR '':'' # CHR 0x09 # ''[1 ,'' @ CHR 0x0A # ''true]'' @ CHR 0x0D # ''} '')"
    using ws_ins_punct [OF _ e10, of "CHR '':''"] by simp
  have e12: "ws_ins '':[1,true]}'' ('' :'' @ CHR 0x09 # ''[1 ,'' @ CHR 0x0A # ''true]'' @ CHR 0x0D # ''} '')"
    using ws_ins.insert [OF w(1) e11] by simp
  have l13: \<open>lexeme ''"a"'' '':[1,true]}''\<close>
    using lexeme.string [of "''a''" "'':[1,true]}''"] by simp
  have e13: \<open>ws_ins ''"a":[1,true]}''
      (''"a" :'' @ CHR 0x09 # ''[1 ,'' @ CHR 0x0A # ''true]'' @ CHR 0x0D # ''} '')\<close>
    using ws_ins.keep [OF l13 e12] by simp
  have e14: \<open>ws_ins ''"a":[1,true]}''
      ('' "a" :'' @ CHR 0x09 # ''[1 ,'' @ CHR 0x0A # ''true]'' @ CHR 0x0D # ''} '')\<close>
    using ws_ins.insert [OF w(1) e13] by simp
  have e15: \<open>ws_ins ''{"a":[1,true]}''
      (''{ "a" :'' @ [CHR 0x09] @ ''[1 ,'' @ [CHR 0x0A] @ ''true]'' @ [CHR 0x0D] @ ''} '')\<close>
    using ws_ins_punct [OF _ e14, of "CHR ''{''"] by simp
  have v: \<open>main_parse ''{"a":[1,true]}'' =
       Inr (VObject [(''a'', VArray [VNumber (Float64 False 1), VBoolean True])])\<close>
    by code_simp
  from C9_white_space_between_tokens [OF e15] v show ?thesis by simp
qed

text \<open>
  C10: for some inputs a number token whose text is not a floating-point literal becomes
  the number 0 in the tree. The scanner takes any run of digits, dots and minus signs:
  \<^verbatim>\<open>1.2.3\<close> and \<^verbatim>\<open>1-2\<close> are number tokens. The conversion reports a syntax error for both and
  returns 0; \<^verbatim>\<open>parseValue\<close> drops the error and keeps the 0.
\<close>

theorem C10_conversion_error_dropped:
  "map_sum id fst (Lexer_nextToken (NewLexer ''1.2.3]'')) = Inr \<lparr>Type = TokenNumber, Value = ''1.2.3''\<rparr>
   \<and> ParseFloat ''1.2.3'' = (Float64 False 0, True)
   \<and> main_parse ''[1.2.3]'' = Inr (VArray [VNumber (Float64 False 0)])
   \<and> map_sum id fst (Lexer_nextToken (NewLexer ''1-2]'')) = Inr \<lparr>Type = TokenNumber, Value = ''1-2''\<rparr>
   \<and> ParseFloat ''1-2'' = (Float64 False 0, True)
   \<and> main_parse ''[1-2]'' = Inr (VArray [VNumber (Float64 False 0)])"
  by code_simp

end
